theory Spec2Isabelle
  imports Main "HOL-Library.Word"
begin

unbundle bit_operations_syntax

section \<open>Go values: bytes, strings, slices, panics\<close>

text \<open>
  The package \<open>nbf\<close> (file \<open>nokia/nbf/message.go\<close>) decodes the file names and the
  message files of Nokia backup archives. Go's \<open>byte\<close> is an 8-bit word, a Go \<open>string\<close>
  is a sequence of bytes, and Go's \<open>int\<close> is modelled by \<open>nat\<close> or \<open>int\<close>: every
  integer of the package is computed from at most a few bytes and stays far below
  \<open>2^63\<close>.
\<close>

type_synonym byte = "8 word"
type_synonym gostring = "byte list"

definition bytes_of :: "string \<Rightarrow> gostring" where
  "bytes_of cs = map of_char cs"

text \<open>
  A run-time panic ends the call without a result. The package meets three kinds: an
  index out of range, slice bounds out of range, and the explicit \<open>panic(...)\<close>.
\<close>

datatype panic = IndexOutOfRange | SliceBoundsOutOfRange | PanicMsg gostring

fun and_then :: "panic + 'a \<Rightarrow> ('a \<Rightarrow> panic + 'b) \<Rightarrow> panic + 'b" where
  "and_then (Inl e) f = Inl e"
| "and_then (Inr x) f = f x"

text \<open>
  A slice is a window on an array: \<open>arr\<close> holds the array from the slice's first
  element to the end of the array (so the capacity is \<open>length arr\<close>) and \<open>len\<close> is
  the slice's length. Indexing \<open>s[i]\<close> and the open slice \<open>s[a:]\<close> are checked against
  the length, the slice \<open>s[a:b]\<close> with an explicit upper bound against the capacity.
\<close>

record 'a slice =
  arr :: "'a list"
  len :: nat

definition cap :: "'a slice \<Rightarrow> nat" where
  "cap s = length (arr s)"

definition elems :: "'a slice \<Rightarrow> 'a list" where
  "elems s = take (len s) (arr s)"

definition wf_slice :: "'a slice \<Rightarrow> bool" where
  "wf_slice s = (len s \<le> length (arr s))"

definition slice_of :: "'a list \<Rightarrow> 'a slice" where
  "slice_of xs = \<lparr>arr = xs, len = length xs\<rparr>"

definition nil_slice :: "'a slice" where
  "nil_slice = \<lparr>arr = [], len = 0\<rparr>"

definition index :: "'a slice \<Rightarrow> nat \<Rightarrow> panic + 'a" where
  "index s i = (if i < len s then Inr (arr s ! i) else Inl IndexOutOfRange)"

definition slice_from :: "'a slice \<Rightarrow> nat \<Rightarrow> panic + 'a slice" where
  "slice_from s a =
     (if a \<le> len s then Inr \<lparr>arr = drop a (arr s), len = len s - a\<rparr>
      else Inl SliceBoundsOutOfRange)"

definition slice_range :: "'a slice \<Rightarrow> nat \<Rightarrow> nat \<Rightarrow> panic + 'a slice" where
  "slice_range s a b =
     (if a \<le> b \<and> b \<le> cap s then Inr \<lparr>arr = drop a (arr s), len = b - a\<rparr>
      else Inl SliceBoundsOutOfRange)"

section \<open>The BCD address decoder\<close>

text \<open>
  \<open>decodeBCD\<close> runs over the bytes of \<open>b\<close>, appends \<open>'0' + (c & 0xf)\<close> to \<open>s\<close>, leaves
  the loop when the high nibble is \<open>0xf\<close> and appends \<open>'0' + (c >> 4)\<close> otherwise.
\<close>

fun decodeBCD_loop :: "byte list \<Rightarrow> byte list \<Rightarrow> byte list" where
  "decodeBCD_loop [] s = s"
| "decodeBCD_loop (c # b) s =
     (let s1 = s @ [0x30 + (c AND 0xf)]
      in if drop_bit 4 c = 0xf then s1
         else decodeBCD_loop b (s1 @ [0x30 + drop_bit 4 c]))"

definition decodeBCD :: "byte slice \<Rightarrow> gostring" where
  "decodeBCD b = decodeBCD_loop (elems b) []"

section \<open>Time\<close>

text \<open>
  A \<open>time.Time\<close> is an instant (seconds and nanoseconds since the Unix epoch,
  1970-01-01 00:00:00 UTC) with a location. \<open>time.Unix\<close>, \<open>Time.Add\<close>, \<open>time.Date\<close>
  and \<open>time.FixedZone\<close> belong to Go's standard library; they are written here after
  their documentation. A \<open>time.Duration\<close> is a number of nanoseconds.
\<close>

datatype location = UTC | Local | FixedZone gostring int

record Time =
  unix_sec :: int
  nsec :: int
  loc :: location

definition time_Unix :: "int \<Rightarrow> int \<Rightarrow> Time" where
  "time_Unix sec ns =
     \<lparr>unix_sec = sec + ns div 1000000000, nsec = ns mod 1000000000, loc = Local\<rparr>"

definition time_Hour :: int where
  "time_Hour = 3600 * 1000000000"

definition time_Add :: "Time \<Rightarrow> int \<Rightarrow> Time" where
  "time_Add t d =
     t\<lparr>unix_sec := unix_sec t + (nsec t + d) div 1000000000,
       nsec := (nsec t + d) mod 1000000000\<rparr>"

definition DosTime :: "32 word \<Rightarrow> Time" where
  "DosTime stamp =
     (let t = time_Unix (uint stamp) 0
      in time_Add t (3652 * 24 * time_Hour))"

text \<open>
  \<open>time.Date(year, month, day, hour, min, sec, nsec, time.FixedZone(name, offset))\<close>:
  the instant at which the clock of the zone shows the given date and time. Values
  outside their usual ranges are normalised (month 14 is February of the next year, and
  so on), as the library documents.
\<close>

definition isLeap :: "int \<Rightarrow> bool" where
  "isLeap y = (y mod 4 = 0 \<and> (y mod 100 \<noteq> 0 \<or> y mod 400 = 0))"

definition daysBefore :: "int list" where
  "daysBefore = [0, 31, 59, 90, 120, 151, 181, 212, 243, 273, 304, 334]"

definition daysSinceEpoch :: "int \<Rightarrow> int" where
  "daysSinceEpoch y =
     365 * (y - 1970) + ((y - 1) div 4 - (y - 1) div 100 + (y - 1) div 400) - 477"

definition time_Date_FixedZone ::
  "int \<Rightarrow> int \<Rightarrow> int \<Rightarrow> int \<Rightarrow> int \<Rightarrow> int \<Rightarrow> int \<Rightarrow> gostring \<Rightarrow> int \<Rightarrow> Time" where
  "time_Date_FixedZone year month day hour minute sec ns name offset =
     (let m = (month - 1) mod 12;
          y = year + (month - 1) div 12;
          d = daysSinceEpoch y + daysBefore ! nat m
              + (if isLeap y \<and> 2 \<le> m then 1 else 0) + (day - 1);
          total = d * 86400 + hour * 3600 + minute * 60 + sec + ns div 1000000000
      in \<lparr>unix_sec = total - offset, nsec = ns mod 1000000000,
          loc = FixedZone name offset\<rparr>)"

text \<open>The zero \<open>time.Time\<close>: January 1 of year 1, 00:00:00 UTC.\<close>

definition zero_Time :: Time where
  "zero_Time = \<lparr>unix_sec = - 62135596800, nsec = 0, loc = UTC\<rparr>"

section \<open>The semi-octet date and time\<close>

text \<open>
  \<open>parseDateTime\<close> fills \<open>dt[0..6]\<close> with \<open>int(b[i]&0xf)*10 + int(b[i]>>4)\<close> and calls
  \<open>time.Date(2000+dt[0], dt[1], dt[2], dt[3], dt[4], dt[5], 0,
  time.FixedZone("", dt[6]*3600/4))\<close>.
\<close>

definition semi_octet :: "byte \<Rightarrow> int" where
  "semi_octet c = uint (c AND 0xf) * 10 + uint (drop_bit 4 c)"

fun parseDateTime_loop :: "byte slice \<Rightarrow> nat list \<Rightarrow> panic + int list" where
  "parseDateTime_loop b [] = Inr []"
| "parseDateTime_loop b (i # rest) =
     and_then (index b i) (\<lambda>c.
     and_then (parseDateTime_loop b rest) (\<lambda>dt.
     Inr (semi_octet c # dt)))"

definition parseDateTime :: "byte slice \<Rightarrow> panic + Time" where
  "parseDateTime b =
     and_then (parseDateTime_loop b [0 ..< 7]) (\<lambda>dt.
     Inr (time_Date_FixedZone (2000 + dt ! 0) (dt ! 1) (dt ! 2) (dt ! 3) (dt ! 4) (dt ! 5) 0
            [] (dt ! 6 * 3600 div 4)))"

section \<open>The 7-bit unpacker and the alphabet\<close>

text \<open>
  \<open>unpack7bit\<close> keeps a 16-bit buffer \<open>buf\<close> holding \<open>buflen\<close> bits. Each input byte is
  or-ed in at bit \<open>buflen\<close>; while 7 bits or more are held, the low 7 bits are
  appended to \<open>out\<close> and shifted away. \<open>out\<close> is made with length 0 and capacity
  \<open>len(s) + len(s)/7 + 1\<close>; the array behind it is zeroed.
\<close>

function unpack7bit_drain ::
  "16 word \<Rightarrow> nat \<Rightarrow> byte list \<Rightarrow> 16 word \<times> nat \<times> byte list" where
  "unpack7bit_drain buf buflen out =
     (if 7 \<le> buflen
      then unpack7bit_drain (drop_bit 7 buf) (buflen - 7) (out @ [ucast (buf AND 0x7f)])
      else (buf, buflen, out))"
  by pat_completeness auto
termination
  by (relation "measure (\<lambda>(buf, buflen, out). buflen)") auto

declare unpack7bit_drain.simps [simp del]

fun unpack7bit_loop :: "byte list \<Rightarrow> 16 word \<Rightarrow> nat \<Rightarrow> byte list \<Rightarrow> byte list" where
  "unpack7bit_loop [] buf buflen out = out"
| "unpack7bit_loop (c # s) buf buflen out =
     (case unpack7bit_drain (buf OR push_bit buflen (ucast c)) (buflen + 8) out of
        (buf', buflen', out') \<Rightarrow> unpack7bit_loop s buf' buflen' out')"

definition unpack7bit :: "byte slice \<Rightarrow> byte slice" where
  "unpack7bit s =
     (let out = unpack7bit_loop (elems s) 0 0 [];
          c = len s + len s div 7 + 1
      in \<lparr>arr = out @ replicate (c - length out) 0, len = length out\<rparr>)"

text \<open>
  \<open>string(r)\<close> for a slice of runes is the UTF-8 encoding of the runes; a rune that is
  no Unicode scalar value is encoded as U+FFFD.
\<close>

definition utf8_encode :: "int \<Rightarrow> byte list" where
  "utf8_encode r =
     (if r < 0 \<or> 0x10FFFF < r \<or> (0xD800 \<le> r \<and> r \<le> 0xDFFF) then [0xEF, 0xBF, 0xBD]
      else if r \<le> 0x7F then [word_of_int r]
      else if r \<le> 0x7FF then
        [word_of_int (0xC0 + r div 64), word_of_int (0x80 + r mod 64)]
      else if r \<le> 0xFFFF then
        [word_of_int (0xE0 + r div 4096), word_of_int (0x80 + (r div 64) mod 64),
         word_of_int (0x80 + r mod 64)]
      else
        [word_of_int (0xF0 + r div 262144), word_of_int (0x80 + (r div 4096) mod 64),
         word_of_int (0x80 + (r div 64) mod 64), word_of_int (0x80 + r mod 64)])"

definition string_of_runes :: "int list \<Rightarrow> gostring" where
  "string_of_runes rs = concat (map utf8_encode rs)"

text \<open>\<open>utf16.Decode\<close>: surrogate pairs are joined, a lone surrogate becomes U+FFFD.\<close>

fun utf16_Decode :: "16 word list \<Rightarrow> int list" where
  "utf16_Decode [] = []"
| "utf16_Decode [r] = [if r < 0xd800 \<or> 0xe000 \<le> r then uint r else 0xFFFD]"
| "utf16_Decode (r # r2 # s) =
     (if r < 0xd800 \<or> 0xe000 \<le> r then uint r # utf16_Decode (r2 # s)
      else if r < 0xdc00 \<and> 0xdc00 \<le> r2 \<and> r2 < 0xe000
      then ((uint r - 0xd800) * 1024 + (uint r2 - 0xdc00) + 0x10000) # utf16_Decode s
      else 0xFFFD # utf16_Decode (r2 # s))"

text \<open>The table \<open>basicSMSset\<close>, a \<open>[128]rune\<close>; entry \<open>0x1B\<close> (escape) is \<open>-1\<close>.\<close>

definition basicSMSset :: "int list" where
  "basicSMSset =
    [0x40, 0xA3, 0x24, 0xA5, 0xE8, 0xE9, 0xF9, 0xEC,
     0xF2, 0xC7, 0x0A, 0xD8, 0xF8, 0x0D, 0xC5, 0xE5,
     0x394, 0x5F, 0x3A6, 0x393, 0x39B, 0x3A9, 0x3A0, 0x3A8,
     0x3A3, 0x398, 0x39E, - 1, 0xC6, 0xE6, 0xDF, 0xC9,
     0x20, 0x21, 0x22, 0x23, 0xA4, 0x25, 0x26, 0x27,
     0x28, 0x29, 0x2A, 0x2B, 0x2C, 0x2D, 0x2E, 0x2F,
     0x30, 0x31, 0x32, 0x33, 0x34, 0x35, 0x36, 0x37,
     0x38, 0x39, 0x3A, 0x3B, 0x3C, 0x3D, 0x3E, 0x3F,
     0xA1, 0x41, 0x42, 0x43, 0x44, 0x45, 0x46, 0x47,
     0x48, 0x49, 0x4A, 0x4B, 0x4C, 0x4D, 0x4E, 0x4F,
     0x50, 0x51, 0x52, 0x53, 0x54, 0x55, 0x56, 0x57,
     0x58, 0x59, 0x5A, 0xC4, 0xD6, 0xD1, 0xDC, 0xA7,
     0xBF, 0x61, 0x62, 0x63, 0x64, 0x65, 0x66, 0x67,
     0x68, 0x69, 0x6A, 0x6B, 0x6C, 0x6D, 0x6E, 0x6F,
     0x70, 0x71, 0x72, 0x73, 0x74, 0x75, 0x76, 0x77,
     0x78, 0x79, 0x7A, 0xE4, 0xF6, 0xF1, 0xFC, 0xE0]"

text \<open>
  \<open>translateSMS\<close> looks every byte of \<open>s\<close> up in the table; the lookup \<open>charset[b]\<close>
  panics when \<open>b\<close> is not below the table's length.
\<close>

definition array_index :: "'a list \<Rightarrow> nat \<Rightarrow> panic + 'a" where
  "array_index a i = (if i < length a then Inr (a ! i) else Inl IndexOutOfRange)"

fun translateSMS_loop :: "byte list \<Rightarrow> int list \<Rightarrow> int list \<Rightarrow> panic + int list" where
  "translateSMS_loop [] charset r = Inr r"
| "translateSMS_loop (b # s) charset r =
     and_then (array_index charset (unat b)) (\<lambda>c.
     translateSMS_loop s charset (r @ [c]))"

definition translateSMS :: "byte slice \<Rightarrow> int list \<Rightarrow> panic + gostring" where
  "translateSMS s charset =
     and_then (translateSMS_loop (elems s) charset []) (\<lambda>r. Inr (string_of_runes r))"


section \<open>The SMS-DELIVER TPDU\<close>

record deliverMessage =
  MsgType :: byte
  MoreMsg :: bool
  FromAddr :: gostring
  Protocol :: byte
  Compressed :: bool
  Unicode :: bool
  SMSCStamp :: Time
  RawData :: "byte slice"
  Concat :: bool
  Ref :: int
  Part :: int
  NParts :: int

text \<open>The zero value of the struct, which a declared variable or named result holds.\<close>

definition zero_deliverMessage :: deliverMessage where
  "zero_deliverMessage =
     \<lparr>MsgType = 0, MoreMsg = False, FromAddr = [], Protocol = 0, Compressed = False,
      Unicode = False, SMSCStamp = zero_Time, RawData = nil_slice, Concat = False,
      Ref = 0, Part = 0, NParts = 0\<rparr>"

fun UserData_runes :: "byte list \<Rightarrow> 16 word list" where
  "UserData_runes (hi # lo # rest) = (push_bit 8 (ucast hi) OR ucast lo) # UserData_runes rest"
| "UserData_runes rest = []"

definition UserData :: "deliverMessage \<Rightarrow> panic + gostring" where
  "UserData msg =
     (if Unicode msg
      then Inr (string_of_runes (utf16_Decode (UserData_runes (elems (RawData msg)))))
      else translateSMS (RawData msg) basicSMSset)"

text \<open>
  \<open>parseDeliverMessage\<close> returns the message and the number of bytes it consumed. The
  steps follow the source line by line: type byte and address, format byte, time stamp,
  payload, concatenation header. The last two steps of the function body are written
  apart, so that each can be named: \<open>parseDeliverMessage_payload\<close> is the
  \<open>if msg.Unicode { ... } else { ... }\<close> on the slice \<open>p\<close> that starts at the length
  byte, and \<open>parseDeliverMessage_concat\<close> is the \<open>switch\<close> on \<open>ud := p[1:]\<close>.
\<close>

definition parseDeliverMessage_payload ::
  "deliverMessage \<Rightarrow> byte slice \<Rightarrow> nat \<Rightarrow> panic + (deliverMessage \<times> nat)" where
  "parseDeliverMessage_payload msg p size2 =
     (if Unicode msg then
        and_then (index p 0) (\<lambda>lb.
        let length = unat lb in
        and_then (slice_range p 1 (length + 1)) (\<lambda>raw.
        Inr (msg\<lparr>RawData := raw\<rparr>, size2 + (length + 1))))
      else
        and_then (index p 0) (\<lambda>lb.
        let length = unat lb;
            packedLen = length - length div 8
        in
        and_then (slice_range p 1 (1 + packedLen)) (\<lambda>packed.
        and_then (slice_range (unpack7bit packed) 0 length) (\<lambda>raw.
        Inr (msg\<lparr>RawData := raw\<rparr>, size2 + (packedLen + 1))))))"

definition parseDeliverMessage_concat ::
  "deliverMessage \<Rightarrow> byte slice \<Rightarrow> nat \<Rightarrow> panic + (deliverMessage \<times> nat)" where
  "parseDeliverMessage_concat msg ud size3 =
     (if 6 \<le> len ud \<and> index ud 0 = Inr 5 \<and> index ud 1 = Inr 0 \<and> index ud 2 = Inr 3 then
        and_then (index ud 5) (\<lambda>part.
        and_then (index ud 4) (\<lambda>nparts.
        and_then (index ud 3) (\<lambda>ref.
        let msg6 = msg\<lparr>Concat := True, Part := uint part, NParts := uint nparts,
                        Ref := uint ref\<rparr>
        in
        and_then (slice_from (RawData msg6) (if Unicode msg6 then 6 else 7)) (\<lambda>raw.
        Inr (msg6\<lparr>RawData := raw\<rparr>, size3)))))
      else if 7 \<le> len ud \<and> index ud 0 = Inr 6 \<and> index ud 1 = Inr 8 \<and> index ud 2 = Inr 4 then
        and_then (index ud 6) (\<lambda>part.
        and_then (index ud 5) (\<lambda>nparts.
        and_then (index ud 3) (\<lambda>ref_hi.
        and_then (index ud 4) (\<lambda>ref_lo.
        let msg6 = msg\<lparr>Concat := True, Part := uint part, NParts := uint nparts,
                        Ref := push_bit 8 (uint ref_hi) OR uint ref_lo\<rparr>
        in
        and_then (slice_from (RawData msg6) (if Unicode msg6 then 7 else 8)) (\<lambda>raw.
        Inr (msg6\<lparr>RawData := raw\<rparr>, size3))))))
      else Inr (msg, size3))"

definition parseDeliverMessage :: "byte slice \<Rightarrow> panic + (deliverMessage \<times> nat)" where
  "parseDeliverMessage s =
     and_then (index s 0) (\<lambda>p0.
     and_then (index s 1) (\<lambda>p1.
     let msg1 = zero_deliverMessage\<lparr>MsgType := p0 AND 3, MoreMsg := (p0 AND 4 = 0)\<rparr>;
         nbLen = unat p1
     in
     and_then (slice_range s 3 (3 + (nbLen + 1) div 2)) (\<lambda>addr.
     let msg2 = msg1\<lparr>FromAddr := decodeBCD addr\<rparr>;
         size1 = 3 + (nbLen + 1) div 2
     in
     and_then (slice_from s size1) (\<lambda>p.
     and_then (index p 1) (\<lambda>format.
     let msg3 = msg2\<lparr>Compressed := (format AND 0x20 \<noteq> 0), Unicode := (format AND 8 \<noteq> 0)\<rparr>
     in
     and_then (slice_range p 2 9) (\<lambda>stamp_bytes.
     and_then (parseDateTime stamp_bytes) (\<lambda>stamp.
     let msg4 = msg3\<lparr>SMSCStamp := stamp\<rparr>;
         size2 = size1 + (2 + 7)
     in
     and_then (slice_from s size2) (\<lambda>p.
     and_then (parseDeliverMessage_payload msg4 p size2) (\<lambda>(msg5, size3).
     and_then (slice_from p 1) (\<lambda>ud.
     parseDeliverMessage_concat msg5 ud size3))))))))))"

section \<open>The message file\<close>

datatype go_error = ErrSyntax | ErrRange | Errorf gostring

record rawMessage =
  Peer :: gostring
  Text :: gostring
  Msg :: deliverMessage

definition zero_rawMessage :: rawMessage where
  "zero_rawMessage = \<lparr>Peer = [], Text = [], Msg = zero_deliverMessage\<rparr>"

text \<open>\<open>binary.BigEndian.Uint16(b)\<close> checks \<open>b[1]\<close> and joins \<open>b[0]\<close> and \<open>b[1]\<close>.\<close>

definition BigEndian_Uint16 :: "byte slice \<Rightarrow> panic + 16 word" where
  "BigEndian_Uint16 b =
     and_then (index b 1) (\<lambda>b1.
     and_then (index b 0) (\<lambda>b0.
     Inr (ucast b1 OR push_bit 8 (ucast b0))))"

text \<open>
  The peer name: \<open>for off := 0x5e; s[off]|s[off+1] != 0; off += 2\<close>, appending the
  big-endian code unit at \<open>off\<close>. The loop ends at a zero code unit or panics at the end
  of the buffer.
\<close>

function parseMessage_peer :: "byte slice \<Rightarrow> nat \<Rightarrow> 16 word list \<Rightarrow> panic + 16 word list" where
  "parseMessage_peer s off runes =
     (case index s off of
        Inl e \<Rightarrow> Inl e
      | Inr a \<Rightarrow>
          (case index s (off + 1) of
             Inl e \<Rightarrow> Inl e
           | Inr b \<Rightarrow>
               if a OR b \<noteq> 0 then
                 (case slice_range s off (off + 2) of
                    Inl e \<Rightarrow> Inl e
                  | Inr w \<Rightarrow>
                      (case BigEndian_Uint16 w of
                         Inl e \<Rightarrow> Inl e
                       | Inr r \<Rightarrow> parseMessage_peer s (off + 2) (runes @ [r])))
               else Inr runes))"
  by pat_completeness auto
termination
  by (relation "measure (\<lambda>(s, off, runes). len s - off)")
     (auto simp: index_def split: if_splits)

declare parseMessage_peer.simps [simp del]

text \<open>
  The text: \<open>text[i] = rune(binary.BigEndian.Uint16(pdu[2*i : 2*i+2]))\<close> for every
  \<open>i\<close> below \<open>length/2\<close>; the first argument counts the iterations left.
\<close>

fun parseMessage_text :: "nat \<Rightarrow> byte slice \<Rightarrow> nat \<Rightarrow> int list \<Rightarrow> panic + int list" where
  "parseMessage_text 0 pdu i text = Inr text"
| "parseMessage_text (Suc k) pdu i text =
     and_then (slice_range pdu (2 * i) (2 * i + 2)) (\<lambda>w.
     and_then (BigEndian_Uint16 w) (\<lambda>r.
     parseMessage_text k pdu (i + 1) (text @ [uint r])))"

definition parseMessage :: "byte slice \<Rightarrow> panic + (rawMessage \<times> go_error option)" where
  "parseMessage s =
     and_then (parseMessage_peer s 0x5e []) (\<lambda>runes.
     let peer = string_of_runes (utf16_Decode runes) in
     and_then (slice_from s 0xb0) (\<lambda>pdu.
     and_then (index pdu 0) (\<lambda>msgType.
     and_then
       (if msgType AND 3 = 0 then
          and_then (parseDeliverMessage pdu) (\<lambda>(msg, n).
          and_then (slice_from pdu n) (\<lambda>pdu'.
          Inr (msg, pdu')))
        else if msgType AND 3 = 1 then Inr (zero_deliverMessage, pdu)
        else if msgType AND 3 = 2 then Inr (zero_deliverMessage, pdu)
        else if msgType AND 3 = 3 then Inl (PanicMsg (bytes_of ''invalid message type 3''))
        else Inr (zero_deliverMessage, pdu))
       (\<lambda>(msg, pdu).
     if len pdu = 0 then Inr (\<lparr>Peer = peer, Text = [], Msg = msg\<rparr>, None)
     else if len pdu < 72 then
       Inr (zero_rawMessage, Some (Errorf (bytes_of ''truncated message'')))
     else
       and_then (slice_from pdu 65) (\<lambda>pdu1.
       and_then (index pdu1 5) (\<lambda>lb.
       let length = unat lb in
       and_then (slice_from pdu1 6) (\<lambda>pdu2.
       and_then (parseMessage_text (length div 2) pdu2 0 []) (\<lambda>text.
       Inr (\<lparr>Peer = peer, Text = string_of_runes text, Msg = msg\<rparr>, None))))))))) "

section \<open>The file name\<close>

record Message =
  Date :: Time
  Seq :: "32 word"
  Timestamp :: "32 word"
  MultipartSeq :: "16 word"
  Flags :: "16 word"
  PartNo :: byte
  PartTotal :: byte
  Peer_fn :: "byte list"
  Pad :: byte

definition FLAGS_SMS :: "16 word" where
  "FLAGS_SMS = 0x2000"

definition FLAGS_MMS :: "16 word" where
  "FLAGS_MMS = 0x1000"

text \<open>
  Strings are checked against their length: \<open>s[i]\<close>, \<open>s[a:]\<close> and \<open>s[:b]\<close>.
\<close>

definition str_index :: "gostring \<Rightarrow> nat \<Rightarrow> panic + byte" where
  "str_index s i = (if i < length s then Inr (s ! i) else Inl IndexOutOfRange)"

definition str_from :: "gostring \<Rightarrow> nat \<Rightarrow> panic + gostring" where
  "str_from s a = (if a \<le> length s then Inr (drop a s) else Inl SliceBoundsOutOfRange)"

definition str_to :: "gostring \<Rightarrow> nat \<Rightarrow> panic + gostring" where
  "str_to s b = (if b \<le> length s then Inr (take b s) else Inl SliceBoundsOutOfRange)"

text \<open>
  \<open>strconv.ParseUint(s, 16, 32)\<close> of Go's standard library: the empty string and a
  string with a byte that is no hexadecimal digit are syntax errors (value 0), a value
  above \<open>2^32 - 1\<close> is a range error (value \<open>2^32 - 1\<close>). The digit of a byte is looked
  up after setting bit \<open>0x20\<close>, which maps upper case to lower case.
\<close>

definition hex_digit :: "byte \<Rightarrow> nat option" where
  "hex_digit c =
     (if 0x30 \<le> c \<and> c \<le> 0x39 then Some (unat c - 0x30)
      else if 0x61 \<le> (c OR 0x20) \<and> (c OR 0x20) \<le> 0x7a
      then Some (unat (c OR 0x20) - 0x61 + 10)
      else None)"

fun ParseUint_loop :: "byte list \<Rightarrow> nat \<Rightarrow> nat \<times> go_error option" where
  "ParseUint_loop [] n = (n, None)"
| "ParseUint_loop (c # s) n =
     (case hex_digit c of
        None \<Rightarrow> (0, Some ErrSyntax)
      | Some d \<Rightarrow>
          if 16 \<le> d then (0, Some ErrSyntax)
          else if 2 ^ 60 \<le> n then (2 ^ 32 - 1, Some ErrRange)
          else if 2 ^ 32 - 1 < n * 16 + d then (2 ^ 32 - 1, Some ErrRange)
          else ParseUint_loop s (n * 16 + d))"

definition ParseUint_16_32 :: "gostring \<Rightarrow> nat \<times> go_error option" where
  "ParseUint_16_32 s = (if s = [] then (0, Some ErrSyntax) else ParseUint_loop s 0)"

definition getUint32 :: "gostring \<Rightarrow> panic + (gostring \<times> 32 word \<times> go_error option)" where
  "getUint32 s =
     and_then (str_to s 8) (\<lambda>head.
     case ParseUint_16_32 head of (x, err) \<Rightarrow>
     and_then (str_from s 8) (\<lambda>rest.
     Inr (rest, word_of_nat x, err)))"

text \<open>
  \<open>ParseFilename\<close> writes the fields of \<open>msg\<close> as it goes and returns the first error of
  \<open>getUint32\<close>; the result here is the message as written so far and the error, if any.
\<close>

definition ParseFilename :: "Message \<Rightarrow> gostring \<Rightarrow> panic + (Message \<times> go_error option)" where
  "ParseFilename msg filename =
     and_then (getUint32 filename) (\<lambda>(s1, seq, err1).
     let msg1 = msg\<lparr>Seq := seq\<rparr> in
     if err1 \<noteq> None then Inr (msg1, err1) else
     and_then (getUint32 s1) (\<lambda>(s2, stamp, err2).
     let msg2 = msg1\<lparr>Timestamp := stamp\<rparr> in
     if err2 \<noteq> None then Inr (msg2, err2) else
     and_then (getUint32 s2) (\<lambda>(s3, n, err3).
     if err3 \<noteq> None then Inr (msg2, err3) else
     let msg3 = msg2\<lparr>MultipartSeq := ucast (drop_bit 16 n), Flags := ucast n\<rparr> in
     and_then (str_from s3 8) (\<lambda>s4.
     and_then (getUint32 s4) (\<lambda>(s5, n', err4).
     if err4 \<noteq> None then Inr (msg3, err4) else
     let msg4 = msg3\<lparr>PartNo := ucast (drop_bit 12 n'), PartTotal := ucast (drop_bit 20 n')\<rparr> in
     and_then (str_from s5 25) (\<lambda>s6.
     and_then (str_to s6 12) (\<lambda>peer.
     let msg5 = msg4\<lparr>Peer_fn := peer\<rparr> in
     and_then (str_from s6 12) (\<lambda>s7.
     and_then (str_index s7 7) (\<lambda>pad.
     Inr (msg5\<lparr>Pad := pad\<rparr>, None))))))))))"


section \<open>Vocabulary of the statements\<close>




definition zero_Message :: Message where
  "zero_Message =
     \<lparr>Date = zero_Time, Seq = 0, Timestamp = 0, MultipartSeq = 0, Flags = 0,
      PartNo = 0, PartTotal = 0, Peer_fn = replicate 12 0, Pad = 0\<rparr>"

text \<open>
  Bit strings as numbers. \<open>le_val s\<close> reads the bytes of \<open>s\<close> as one number, least
  significant byte first; \<open>septets k v\<close> is the list of the \<open>k\<close> lowest base-128 digits
  of \<open>v\<close>, lowest first; \<open>le_septets xs\<close> reads a list of septets as one number, and
  \<open>le_bytes k v\<close> is the list of the \<open>k\<close> lowest base-256 digits of \<open>v\<close>.
\<close>

fun septets :: "nat \<Rightarrow> nat \<Rightarrow> nat list" where
  "septets 0 v = []"
| "septets (Suc k) v = (v mod 128) # septets k (v div 128)"

fun le_val :: "byte list \<Rightarrow> nat" where
  "le_val [] = 0"
| "le_val (c # s) = unat c + 256 * le_val s"

fun le_septets :: "byte list \<Rightarrow> nat" where
  "le_septets [] = 0"
| "le_septets (x # xs) = unat x + 128 * le_septets xs"

fun le_bytes :: "nat \<Rightarrow> nat \<Rightarrow> byte list" where
  "le_bytes 0 v = []"
| "le_bytes (Suc k) v = word_of_nat (v mod 256) # le_bytes k (v div 256)"

text \<open>
  Modelled from the spec: the package has an unpacker only, no packer. The GSM 7-bit
  packed form of \<open>L\<close> septets lays septet \<open>i\<close> at bits \<open>7 i\<close> to \<open>7 i + 6\<close> of the bit
  string, least significant bit first, and cuts the string into \<open>ceil(L*7/8)\<close> bytes;
  the unused high bits of the last byte are zero.
\<close>

definition pack7bit :: "byte list \<Rightarrow> byte list" where
  "pack7bit xs = le_bytes ((7 * length xs + 7) div 8) (le_septets xs)"

text \<open>Big-endian 16-bit code units of a byte sequence, as numbers.\<close>

fun be16_units :: "byte list \<Rightarrow> int list" where
  "be16_units (hi # lo # rest) = (uint hi * 256 + uint lo) # be16_units rest"
| "be16_units rest = []"

section \<open>Properties of the BCD decoder\<close>

lemma decodeBCD_loop_acc:
  "decodeBCD_loop b s = s @ decodeBCD_loop b []"
proof (induction b arbitrary: s)
  case Nil
  show ?case by simp
next
  case (Cons c b)
  show ?case
    using Cons.IH [of "s @ [0x30 + (c AND 0xf), 0x30 + drop_bit 4 c]"]
          Cons.IH [of "[0x30 + (c AND 0xf), 0x30 + drop_bit 4 c]"]
    by (simp add: Let_def)
qed

text \<open>
  Claim C6. For every byte sequence the decoder emits, byte by byte, the digit of the
  low nibble and then the digit of the high nibble; at the first byte whose high nibble
  is \<open>0xf\<close> it emits the low nibble's digit and stops. The bytes \<open>0x10 0x32\<close> give
  \<open>"0123"\<close> and the byte \<open>0xF1\<close> gives \<open>"1"\<close>.
\<close>

theorem decodeBCD_spec:
  "decodeBCD s =
     concat (map (\<lambda>c. [0x30 + (c AND 0xf), 0x30 + drop_bit 4 c])
                 (takeWhile (\<lambda>c. drop_bit 4 c \<noteq> 0xf) (elems s)))
     @ (case dropWhile (\<lambda>c. drop_bit 4 c \<noteq> 0xf) (elems s) of
          [] \<Rightarrow> []
        | c # rest \<Rightarrow> [0x30 + (c AND 0xf)])
   \<and> decodeBCD (slice_of [0x10, 0x32]) = bytes_of ''0123''
   \<and> decodeBCD (slice_of [0xF1]) = bytes_of ''1''"
proof -
  have "decodeBCD_loop b [] =
     concat (map (\<lambda>c. [0x30 + (c AND 0xf), 0x30 + drop_bit 4 c])
                 (takeWhile (\<lambda>c. drop_bit 4 c \<noteq> 0xf) b))
     @ (case dropWhile (\<lambda>c. drop_bit 4 c \<noteq> 0xf) b of
          [] \<Rightarrow> []
        | c # rest \<Rightarrow> [0x30 + (c AND 0xf)])" for b
  proof (induction b)
    case Nil
    show ?case by simp
  next
    case (Cons c b)
    show ?case
      using Cons.IH decodeBCD_loop_acc [of b "[0x30 + (c AND 0xf), 0x30 + drop_bit 4 c]"]
      by (simp add: Let_def)
  qed
  then have general: "decodeBCD s =
     concat (map (\<lambda>c. [0x30 + (c AND 0xf), 0x30 + drop_bit 4 c])
                 (takeWhile (\<lambda>c. drop_bit 4 c \<noteq> 0xf) (elems s)))
     @ (case dropWhile (\<lambda>c. drop_bit 4 c \<noteq> 0xf) (elems s) of
          [] \<Rightarrow> []
        | c # rest \<Rightarrow> [0x30 + (c AND 0xf)])"
    by (simp add: decodeBCD_def)
  have ex1: "decodeBCD (slice_of [0x10, 0x32]) = bytes_of ''0123''"
    by (simp add: decodeBCD_def slice_of_def elems_def bytes_of_def Let_def)
  have ex2: "decodeBCD (slice_of [0xF1]) = bytes_of ''1''"
    by (simp add: decodeBCD_def slice_of_def elems_def bytes_of_def Let_def)
  from general ex1 ex2 show ?thesis by blast
qed

section \<open>Properties of the DOS time stamp\<close>

text \<open>
  Claim C7. For every 32-bit stamp, \<open>DosTime\<close> is the instant \<open>stamp\<close> seconds and
  3652 days after the Unix epoch \<open>time.Unix(0, 0)\<close>; it has no error case. The stamp 0
  is the instant exactly 3652 days after the epoch.
\<close>

theorem DosTime_spec:
  "DosTime stamp =
     \<lparr>unix_sec = unix_sec (time_Unix 0 0) + 3652 * 86400 + uint stamp, nsec = 0, loc = Local\<rparr>
   \<and> unix_sec (DosTime 0) - unix_sec (time_Unix 0 0) = 3652 * 86400
   \<and> nsec (DosTime 0) = nsec (time_Unix 0 0)"
  by (simp add: DosTime_def time_Unix_def time_Add_def time_Hour_def Let_def)

text \<open>The instant 3652 days after the Unix epoch is 1980-01-01 00:00:00 UTC.\<close>

lemma DosTime_zero_is_1980:
  "unix_sec (DosTime 0) = unix_sec (time_Date_FixedZone 1980 1 1 0 0 0 0 [] 0)"
  by (simp add: DosTime_def time_Unix_def time_Add_def time_Hour_def Let_def
        time_Date_FixedZone_def daysSinceEpoch_def daysBefore_def isLeap_def)

section \<open>Facts about slices and results\<close>

lemma and_then_Inr_iff:
  "and_then m f = Inr y \<longleftrightarrow> (\<exists>x. m = Inr x \<and> f x = Inr y)"
  by (cases m) simp_all

lemma and_then_Inl_iff:
  "and_then m f = Inl e \<longleftrightarrow> m = Inl e \<or> (\<exists>x. m = Inr x \<and> f x = Inl e)"
  by (cases m) auto

lemma and_thenE:
  assumes "and_then m f = Inr y"
  obtains x where "m = Inr x" and "f x = Inr y"
  using assms by (cases m) simp_all


lemma wf_slice_of: "wf_slice (slice_of xs)"
  by (simp add: wf_slice_def slice_of_def)


section \<open>Properties of the semi-octet date and time\<close>

lemma parseDateTime_loop_len7:
  assumes "len b = 7"
  shows "parseDateTime_loop b [0 ..< 7] =
     Inr [semi_octet (arr b ! 0), semi_octet (arr b ! 1), semi_octet (arr b ! 2),
          semi_octet (arr b ! 3), semi_octet (arr b ! 4), semi_octet (arr b ! 5),
          semi_octet (arr b ! 6)]"
proof -
  have u: "[0 ..< 7] = [0, 1, 2, 3, 4, 5, 6::nat]"
    by (simp add: upt_rec)
  show ?thesis
    unfolding u using assms by (simp add: index_def)
qed

text \<open>
  Claim C3, as amended. For every 7-byte field, all seven pairs are decoded alike, as
  \<open>low * 10 + high\<close> (\<open>low\<close> the low nibble of the byte, \<open>high\<close> the high nibble), the
  time zone pair too; the result is \<open>time.Date\<close> of year 2000 plus the first pair, the
  next five pairs as month, day, hour, minute and second, and a fixed zone of
  \<open>pair * 15 * 60\<close> seconds.
\<close>

theorem parseDateTime_spec:
  assumes "len b = 7"
  shows "parseDateTime b =
     Inr (time_Date_FixedZone
            (2000 + (uint (arr b ! 0 AND 0xf) * 10 + uint (drop_bit 4 (arr b ! 0))))
            (uint (arr b ! 1 AND 0xf) * 10 + uint (drop_bit 4 (arr b ! 1)))
            (uint (arr b ! 2 AND 0xf) * 10 + uint (drop_bit 4 (arr b ! 2)))
            (uint (arr b ! 3 AND 0xf) * 10 + uint (drop_bit 4 (arr b ! 3)))
            (uint (arr b ! 4 AND 0xf) * 10 + uint (drop_bit 4 (arr b ! 4)))
            (uint (arr b ! 5 AND 0xf) * 10 + uint (drop_bit 4 (arr b ! 5)))
            0 []
            ((uint (arr b ! 6 AND 0xf) * 10 + uint (drop_bit 4 (arr b ! 6))) * 15 * 60))"
  by (simp add: parseDateTime_def parseDateTime_loop_len7 [OF assms] semi_octet_def)

text \<open>
  The field \<open>11 21 13 41 55 95 21\<close> is 2011-12-31 14:55:59 in the zone of 12 quarter
  hours, that is 11:55:59 UTC.
\<close>

theorem parseDateTime_spec_witness:
  "len (slice_of [0x11, 0x21, 0x13, 0x41, 0x55, 0x95, 0x21 :: byte]) = 7 \<and>
   parseDateTime (slice_of [0x11, 0x21, 0x13, 0x41, 0x55, 0x95, 0x21]) =
     Inr \<lparr>unix_sec = 1325332559, nsec = 0, loc = FixedZone [] 10800\<rparr>"
  using parseDateTime_spec [of "slice_of [0x11, 0x21, 0x13, 0x41, 0x55, 0x95, 0x21]"]
  by (simp add: slice_of_def time_Date_FixedZone_def daysSinceEpoch_def daysBefore_def
        isLeap_def Let_def)

text \<open>
  The claim as first stated combines the nibbles of the time zone pair as
  \<open>low + high * 10\<close>. For the time zone byte \<open>0x21\<close> (low nibble 1, high nibble 2) that
  is 21 quarter hours; the parser's zone is 12 quarter hours.
\<close>

theorem parseDateTime_timezone_counterexample:
  "parseDateTime (slice_of [0x11, 0x21, 0x13, 0x41, 0x55, 0x95, 0x21]) \<noteq>
     Inr (time_Date_FixedZone (2000 + (1 * 10 + 1)) (1 * 10 + 2) (3 * 10 + 1) (1 * 10 + 4)
            (5 * 10 + 5) (5 * 10 + 9) 0 [] ((1 + 2 * 10) * 15 * 60))"
  by (simp add: parseDateTime_def slice_of_def index_def upt_rec semi_octet_def
        time_Date_FixedZone_def Let_def)

section \<open>The reserved message type\<close>




section \<open>Properties of the file name parser\<close>
















text \<open>The file name of the source's comment, with a peer number filled in.\<close>

lemma ParseFilename_example:
  "ParseFilename zero_Message (bytes_of ''00001DFC3CEAC36400B72010005000000030200000000000000000000000000003630012345670000007C'') =
     Inr (\<lparr>Date = zero_Time, Seq = 0x1DFC, Timestamp = 0x3CEAC364, MultipartSeq = 0xB7,
           Flags = 0x2010, PartNo = 2, PartTotal = 3, Peer_fn = bytes_of ''363001234567'',
           Pad = 0x43\<rparr>, None)"
  by (simp add: ParseFilename_def getUint32_def str_to_def str_from_def str_index_def bytes_of_def
        ParseUint_16_32_def hex_digit_def Let_def zero_Message_def)

section \<open>Properties of the 7-bit unpacker\<close>

lemma unat_drop7: "unat (drop_bit 7 (buf :: 16 word)) = unat buf div 128"
  by (simp add: drop_bit_eq_div unat_div_distrib)

lemma unat_low7: "unat (ucast ((buf :: 16 word) AND 0x7f) :: byte) = unat buf mod 128"
proof -
  have "(0x7f :: 16 word) = mask 7" by (simp add: mask_eq_exp_minus_1)
  then have "buf AND 0x7f = take_bit 7 buf" by (simp add: take_bit_eq_mask)
  then have "unat (buf AND 0x7f) = unat buf mod 128"
    by (simp add: take_bit_eq_mod unat_mod_distrib)
  moreover have "unat buf mod 128 < 256"
    by (rule less_trans [of _ 128]) simp_all
  ultimately show ?thesis
    by (simp add: unsigned_ucast_eq take_bit_eq_mod)
qed

lemma nat_or_push_bit:
  fixes a b :: nat
  assumes "a < 2 ^ l"
  shows "a OR push_bit l b = a + 2 ^ l * b"
proof -
  have "a + push_bit l b = a OR push_bit l b"
  proof (rule disjunctive_add)
    fix n
    show "\<not> bit a n \<or> \<not> bit (push_bit l b) n"
    proof (cases "n < l")
      case True
      then show ?thesis by (simp add: bit_push_bit_iff)
    next
      case False
      then have "2 ^ l \<le> (2::nat) ^ n" by simp
      with assms have "a < 2 ^ n" by linarith
      then have "\<not> bit a n" by (simp add: bit_iff_odd)
      then show ?thesis by simp
    qed
  qed
  then show ?thesis by (simp add: push_bit_eq_mult mult.commute)
qed

lemma unat_or_in:
  fixes buf :: "16 word" and c :: byte
  assumes "unat buf < 2 ^ l" and "l \<le> 8"
  shows "unat (buf OR push_bit l (ucast c)) = unat buf + 2 ^ l * unat c"
proof -
  have c: "unat c < 2 ^ 8" using unsigned_less [of c] by simp
  have "2 ^ l * unat c < 2 ^ l * 2 ^ 8"
    using c by simp
  also have "\<dots> \<le> 2 ^ 8 * 2 ^ 8"
    using power_increasing [of l 8 "2::nat"] assms(2) by simp
  finally have small: "2 ^ l * unat c < 2 ^ 16" by simp
  have "unat (ucast c :: 16 word) = unat c"
    using c by (simp add: unsigned_ucast_eq take_bit_eq_mod)
  moreover have "unat (push_bit l w) = take_bit LENGTH(16) (push_bit l (unat w))"
    for w :: "16 word"
    by (rule unsigned_push_bit_eq)
  ultimately have "unat (push_bit l (ucast c :: 16 word)) = take_bit 16 (push_bit l (unat c))"
    by simp
  then have "unat (push_bit l (ucast c :: 16 word)) = push_bit l (unat c)"
    using small by (simp add: take_bit_eq_mod push_bit_eq_mult mult.commute)
  then have "unat (buf OR push_bit l (ucast c)) = unat buf OR push_bit l (unat c)"
    by (simp add: unsigned_or_eq)
  with nat_or_push_bit [OF assms(1)] show ?thesis by simp
qed


lemma length_septets: "length (septets k v) = k"
  by (induction k arbitrary: v) simp_all

lemma septets_less: "x \<in> set (septets k v) \<Longrightarrow> x < 128"
  by (induction k arbitrary: v) auto

lemma septets_add: "septets (a + b) v = septets a v @ septets b (v div 128 ^ a)"
proof (induction a arbitrary: v)
  case 0
  show ?case by simp
next
  case (Suc a)
  show ?case
    using Suc.IH [of "v div 128"] by (simp add: div_mult2_eq)
qed

lemma septets_mod: "septets k (v + 128 ^ k * w) = septets k v"
proof (induction k arbitrary: v w)
  case 0
  show ?case by simp
next
  case (Suc k)
  have "(v + 128 ^ Suc k * w) div 128 = v div 128 + 128 ^ k * w"
    by simp
  moreover have "(v + 128 ^ Suc k * w) mod 128 = v mod 128"
    by (simp add: mult.assoc)
  ultimately show ?case using Suc.IH [of "v div 128" w] by simp
qed

lemma take_septets: "k \<le> n \<Longrightarrow> take k (septets n v) = septets k v"
  using septets_add [of k "n - k" v] by (simp add: length_septets)

lemma unpack7bit_drain_spec:
  "unpack7bit_drain buf buflen out = (buf', buflen', out') \<Longrightarrow>
   buflen' = buflen mod 7 \<and> unat buf' = unat buf div 128 ^ (buflen div 7) \<and>
   map unat out' = map unat out @ septets (buflen div 7) (unat buf)"
proof (induction buf buflen out rule: unpack7bit_drain.induct)
  case (1 buf buflen out)
  show ?case
  proof (cases "7 \<le> buflen")
    case False
    with "1.prems" show ?thesis
      by (simp add: unpack7bit_drain.simps [of buf buflen out])
  next
    case True
    then have d: "buflen div 7 = Suc ((buflen - 7) div 7)"
      by (simp add: le_div_geq)
    from True have m: "(buflen - 7) mod 7 = buflen mod 7"
      by (simp add: le_mod_geq)
    from True "1.prems"
    have "unpack7bit_drain (drop_bit 7 buf) (buflen - 7) (out @ [ucast (buf AND 0x7f)])
            = (buf', buflen', out')"
      by (simp add: unpack7bit_drain.simps [of buf buflen out])
    from "1.IH" [OF True this] show ?thesis
      by (simp add: d m unat_drop7 unat_low7 div_mult2_eq)
  qed
qed

lemma unpack7bit_loop_spec:
  assumes "unat buf < 2 ^ buflen" and "buflen < 7"
  shows "map unat (unpack7bit_loop s buf buflen out) =
         map unat out @ septets ((buflen + 8 * length s) div 7) (unat buf + 2 ^ buflen * le_val s)"
  using assms
proof (induction s arbitrary: buf buflen out)
  case Nil
  then have "buflen div 7 = 0" by simp
  then show ?case by simp
next
  case (Cons c s)
  define k where "k = (buflen + 8) div 7"
  define l where "l = (buflen + 8) mod 7"
  define v where "v = unat buf + 2 ^ buflen * unat c"
  obtain buf' buflen' out' where
    dr: "unpack7bit_drain (buf OR push_bit buflen (ucast c)) (buflen + 8) out = (buf', buflen', out')"
    by (cases "unpack7bit_drain (buf OR push_bit buflen (ucast c)) (buflen + 8) out") blast
  from Cons.prems have v: "unat (buf OR push_bit buflen (ucast c)) = v"
    by (simp add: v_def unat_or_in)
  from unpack7bit_drain_spec [OF dr] v
  have l': "buflen' = l" and b': "unat buf' = v div 128 ^ k"
    and o': "map unat out' = map unat out @ septets k v"
    by (simp_all add: k_def l_def)
  have kl: "buflen + 8 = 7 * k + l"
    by (simp add: k_def l_def)
  have pw: "(2::nat) ^ (buflen + 8) = 128 ^ k * 2 ^ l"
  proof -
    have "(2::nat) ^ (7 * k + l) = (2 ^ 7) ^ k * 2 ^ l"
      by (simp add: power_add power_mult)
    then show ?thesis by (simp add: kl)
  qed
  have "unat c < 256" using unsigned_less [of c] by simp
  then have "2 ^ buflen * unat c \<le> 2 ^ buflen * 255"
    by (intro mult_le_mono2) simp
  moreover have "(2::nat) ^ buflen * 256 = 2 ^ buflen + 2 ^ buflen * 255"
    by simp
  ultimately have "v < 2 ^ buflen * 256"
    using Cons.prems(1) unfolding v_def by linarith
  then have vlt: "v < 128 ^ k * 2 ^ l"
    using pw by (simp add: power_add)
  then have "v div 128 ^ k < 2 ^ l"
    by (simp add: less_mult_imp_div_less mult.commute)
  then have inv: "unat buf' < 2 ^ buflen'"
    by (simp add: b' l')
  have l7: "buflen' < 7"
    by (simp add: l' l_def)
  have K: "(buflen + 8 * length (c # s)) div 7 = k + (l + 8 * length s) div 7"
  proof -
    have "buflen + 8 * length (c # s) = 7 * k + (l + 8 * length s)"
      using kl by simp
    then show ?thesis by simp
  qed
  have V: "unat buf + 2 ^ buflen * le_val (c # s) = v + 128 ^ k * (2 ^ l * le_val s)"
  proof -
    have "unat buf + 2 ^ buflen * le_val (c # s) = v + 2 ^ (buflen + 8) * le_val s"
      by (simp add: v_def algebra_simps power_add)
    then show ?thesis by (simp only: pw mult.assoc)
  qed
  have split: "septets (k + (l + 8 * length s) div 7) (v + 128 ^ k * (2 ^ l * le_val s)) =
        septets k v @ septets ((l + 8 * length s) div 7) (v div 128 ^ k + 2 ^ l * le_val s)"
    by (simp add: septets_add septets_mod add.commute)
  have "map unat (unpack7bit_loop (c # s) buf buflen out) =
        map unat (unpack7bit_loop s buf' buflen' out')"
    by (simp add: dr)
  also have "\<dots> = map unat out' @
        septets ((buflen' + 8 * length s) div 7) (unat buf' + 2 ^ buflen' * le_val s)"
    by (rule Cons.IH [OF inv l7])
  also have "\<dots> = map unat out @
        septets (k + (l + 8 * length s) div 7) (v + 128 ^ k * (2 ^ l * le_val s))"
    by (simp add: o' b' l' split)
  finally show ?case by (simp only: K V)
qed


lemma unpack7bit_out:
  "map unat (unpack7bit_loop s 0 0 []) = septets (8 * length s div 7) (le_val s)"
  using unpack7bit_loop_spec [of 0 0 s "[]"] by simp

lemma unpack7bit_out_length: "length (unpack7bit_loop s 0 0 []) = 8 * length s div 7"
proof -
  have "length (map unat (unpack7bit_loop s 0 0 [])) = 8 * length s div 7"
    by (simp only: unpack7bit_out length_septets)
  then show ?thesis by simp
qed

lemma unpack7bit_out_less:
  assumes "x \<in> set (unpack7bit_loop s 0 0 [])"
  shows "unat x < 128"
proof -
  from assms have "unat x \<in> set (map unat (unpack7bit_loop s 0 0 []))"
    by simp
  then show ?thesis
    by (simp only: unpack7bit_out) (rule septets_less)
qed

text \<open>The capacity given to \<open>out\<close> is never exceeded, so \<open>append\<close> never reallocates.\<close>

lemma unpack7bit_within_cap:
  "length (unpack7bit_loop s 0 0 []) \<le> length s + length s div 7 + 1"
  by (simp add: unpack7bit_out_length)

lemma elems_unpack7bit:
  "elems (unpack7bit s) = unpack7bit_loop (elems s) 0 0 []"
  by (simp add: unpack7bit_def elems_def Let_def)

lemma len_unpack7bit:
  "len (unpack7bit s) = 8 * length (elems s) div 7"
  by (simp add: unpack7bit_def Let_def unpack7bit_out_length)

lemma length_elems: "wf_slice s \<Longrightarrow> length (elems s) = len s"
  by (simp add: elems_def wf_slice_def)

lemma translateSMS_loop_ok:
  "\<forall>b \<in> set s. unat b < length charset \<Longrightarrow>
   translateSMS_loop s charset r = Inr (r @ map (\<lambda>b. charset ! unat b) s)"
  by (induction s arbitrary: r) (simp_all add: array_index_def)

lemma length_basicSMSset: "length basicSMSset = 128"
  by (simp add: basicSMSset_def)

lemma septet_count: "n \<le> 8 * (n - n div 8) div (7::nat)"
proof -
  have "7 * n \<le> 8 * (n - n div 8)" by arith
  then have "7 * n div 7 \<le> 8 * (n - n div 8) div 7" by (rule div_le_mono)
  then show ?thesis by simp
qed

text \<open>
  Claim C9. The 7-bit path is index-safe. For every septet count \<open>n\<close> (the length byte,
  0 to 255, and in fact every \<open>n\<close>), unpacking \<open>n - n div 8\<close> bytes gives
  \<open>8 * (n - n div 8) div 7\<close> septets, which is at least \<open>n\<close>, so the truncation
  \<open>RawData[:n]\<close> is in range; every septet of the unpacker is below 128, so the lookup
  in the table of 128 entries is in range and \<open>translateSMS\<close> does not panic.
\<close>

theorem unpack7bit_index_safe:
  assumes "wf_slice packed" and "len packed = n - n div 8"
  shows "len (unpack7bit packed) = 8 * (n - n div 8) div 7
       \<and> n \<le> len (unpack7bit packed)
       \<and> (\<forall>x \<in> set (elems (unpack7bit packed)). unat x < 128)
       \<and> (\<exists>raw. slice_range (unpack7bit packed) 0 n = Inr raw
             \<and> elems raw = take n (elems (unpack7bit packed))
             \<and> translateSMS raw basicSMSset =
                 Inr (string_of_runes (map (\<lambda>b. basicSMSset ! unat b) (elems raw))))"
proof -
  have l: "len (unpack7bit packed) = 8 * (n - n div 8) div 7"
    using assms by (simp add: len_unpack7bit length_elems)
  have n: "n \<le> len (unpack7bit packed)"
    unfolding l by (rule septet_count)
  have lt: "\<forall>x \<in> set (elems (unpack7bit packed)). unat x < 128"
    by (simp add: elems_unpack7bit unpack7bit_out_less)
  define raw where "raw = \<lparr>arr = arr (unpack7bit packed), len = n\<rparr>"
  have "len (unpack7bit packed) \<le> cap (unpack7bit packed)"
    by (simp add: unpack7bit_def Let_def cap_def)
  with n have r: "slice_range (unpack7bit packed) 0 n = Inr raw"
    by (simp add: slice_range_def raw_def)
  have e: "elems raw = take n (elems (unpack7bit packed))"
    using n by (simp add: raw_def elems_def min_absorb1)
  have "set (elems raw) \<subseteq> set (elems (unpack7bit packed))"
    unfolding e by (rule set_take_subset)
  with lt have "\<forall>b \<in> set (elems raw). unat b < length basicSMSset"
    by (auto simp: length_basicSMSset)
  then have "translateSMS raw basicSMSset =
      Inr (string_of_runes (map (\<lambda>b. basicSMSset ! unat b) (elems raw)))"
    by (simp add: translateSMS_def translateSMS_loop_ok)
  with l n lt r e show ?thesis by blast
qed

theorem unpack7bit_index_safe_witness:
  "wf_slice (slice_of [0xE8, 0x32, 0x9B, 0xFD, 0x06 :: byte])
   \<and> len (slice_of [0xE8, 0x32, 0x9B, 0xFD, 0x06 :: byte]) = 5 - 5 div 8
   \<and> len (unpack7bit (slice_of [0xE8, 0x32, 0x9B, 0xFD, 0x06])) = 5
   \<and> (\<exists>raw. slice_range (unpack7bit (slice_of [0xE8, 0x32, 0x9B, 0xFD, 0x06])) 0 5 = Inr raw
         \<and> translateSMS raw basicSMSset =
             Inr (string_of_runes (map (\<lambda>b. basicSMSset ! unat b) (elems raw))))"
proof -
  have w: "wf_slice (slice_of [0xE8, 0x32, 0x9B, 0xFD, 0x06 :: byte])"
    by (rule wf_slice_of)
  have l: "len (slice_of [0xE8, 0x32, 0x9B, 0xFD, 0x06 :: byte]) = 5 - 5 div 8"
    by (simp add: slice_of_def)
  from unpack7bit_index_safe [OF w l] w l show ?thesis
    by simp blast
qed

lemma length_le_bytes: "length (le_bytes k v) = k"
  by (induction k arbitrary: v) simp_all

lemma le_val_le_bytes: "le_val (le_bytes k v) = v mod 256 ^ k"
proof (induction k arbitrary: v)
  case 0
  show ?case by simp
next
  case (Suc k)
  have "unat (word_of_nat (v mod 256) :: byte) = v mod 256"
    by (simp add: unat_of_nat)
  then show ?case
    using Suc.IH [of "v div 256"] by (simp add: mod_mult2_eq)
qed

lemma le_septets_less:
  "\<forall>x \<in> set xs. x < 128 \<Longrightarrow> le_septets xs < 128 ^ length xs"
proof (induction xs)
  case Nil
  show ?case by simp
next
  case (Cons x xs)
  then have "unat x < 128" by (simp add: word_less_nat_alt)
  moreover from Cons have "le_septets xs + 1 \<le> 128 ^ length xs" by simp
  then have "128 * (le_septets xs + 1) \<le> 128 * 128 ^ length xs"
    by (rule mult_le_mono2)
  ultimately show ?case by simp
qed

lemma septets_le_septets:
  "\<forall>x \<in> set xs. x < 128 \<Longrightarrow> septets (length xs) (le_septets xs) = map unat xs"
proof (induction xs)
  case Nil
  show ?case by simp
next
  case (Cons x xs)
  then have "unat x < 128" by (simp add: word_less_nat_alt)
  with Cons show ?case by simp
qed

lemma packed_size: "(128::nat) ^ n \<le> 256 ^ ((7 * n + 7) div 8)"
proof -
  have "7 * n \<le> 8 * ((7 * n + 7) div 8)" by arith
  then have "(2::nat) ^ (7 * n) \<le> 2 ^ (8 * ((7 * n + 7) div 8))"
    by (simp add: power_increasing)
  then show ?thesis by (simp add: power_mult)
qed

lemma le_val_pack7bit:
  assumes "\<forall>x \<in> set xs. x < 128"
  shows "le_val (pack7bit xs) = le_septets xs"
proof -
  have "le_septets xs < 256 ^ ((7 * length xs + 7) div 8)"
    using le_septets_less [OF assms] packed_size [of "length xs"] by (rule less_le_trans)
  then show ?thesis by (simp add: pack7bit_def le_val_le_bytes)
qed

lemma map_unat_eq:
  assumes "map unat xs = map unat (ys :: byte list)"
  shows "xs = ys"
proof (rule map_injective [OF assms])
  show "inj (unat :: byte \<Rightarrow> nat)"
    by (simp add: inj_on_def word_unat_eq_iff)
qed

lemma le_bytes_numeral:
  "le_bytes (numeral k) v = word_of_nat (v mod 256) # le_bytes (pred_numeral k) (v div 256)"
  by (simp only: numeral_eq_Suc [of k] le_bytes.simps)

text \<open>
  Claim C5. For every sequence of \<open>L\<close> septets (each below 128), the packed form has
  \<open>ceil(L*7/8)\<close> bytes, and unpacking it and truncating to \<open>L\<close> septets, as the parser
  does, gives the sequence back.
\<close>

theorem pack_unpack7bit_roundtrip:
  assumes "\<forall>x \<in> set xs. x < 128"
  shows "length (pack7bit xs) = (7 * length xs + 7) div 8
       \<and> (\<exists>raw. slice_range (unpack7bit (slice_of (pack7bit xs))) 0 (length xs) = Inr raw
             \<and> elems raw = xs)"
proof -
  define packed where "packed = slice_of (pack7bit xs)"
  define n where "n = length xs"
  have size: "length (pack7bit xs) = (7 * n + 7) div 8"
    by (simp add: pack7bit_def length_le_bytes n_def)
  have e: "elems packed = pack7bit xs"
    by (simp add: packed_def slice_of_def elems_def)
  have n_le: "n \<le> 8 * ((7 * n + 7) div 8) div 7"
  proof -
    have "7 * n \<le> 8 * ((7 * n + 7) div 8)" by arith
    then have "7 * n div 7 \<le> 8 * ((7 * n + 7) div 8) div 7" by (rule div_le_mono)
    then show ?thesis by simp
  qed
  have out: "map unat (elems (unpack7bit packed)) =
      septets (8 * ((7 * n + 7) div 8) div 7) (le_septets xs)"
    by (simp add: elems_unpack7bit e unpack7bit_out size le_val_pack7bit [OF assms])
  have l: "len (unpack7bit packed) = 8 * ((7 * n + 7) div 8) div 7"
    by (simp add: len_unpack7bit e size)
  define raw where "raw = \<lparr>arr = arr (unpack7bit packed), len = n\<rparr>"
  have "len (unpack7bit packed) \<le> cap (unpack7bit packed)"
    by (simp add: unpack7bit_def Let_def cap_def)
  with n_le l have r: "slice_range (unpack7bit packed) 0 n = Inr raw"
    by (simp add: slice_range_def raw_def)
  have "elems raw = take n (elems (unpack7bit packed))"
    using n_le l by (simp add: raw_def elems_def min_absorb1)
  then have "map unat (elems raw) = take n (septets (8 * ((7 * n + 7) div 8) div 7) (le_septets xs))"
    by (simp add: out [symmetric] take_map)
  also have "\<dots> = septets n (le_septets xs)"
    using n_le by (rule take_septets)
  also have "\<dots> = map unat xs"
    unfolding n_def by (rule septets_le_septets [OF assms])
  finally have "elems raw = xs" by (rule map_unat_eq)
  with r size show ?thesis
    unfolding packed_def n_def by blast
qed

theorem pack_unpack7bit_roundtrip_witness:
  "pack7bit (bytes_of ''hellohello'') = [0xE8, 0x32, 0x9B, 0xFD, 0x46, 0x97, 0xD9, 0xEC, 0x37]
   \<and> length (pack7bit (bytes_of ''hellohello'')) = (7 * length (bytes_of ''hellohello'') + 7) div 8
   \<and> (\<exists>raw. slice_range (unpack7bit (slice_of (pack7bit (bytes_of ''hellohello'')))) 0
               (length (bytes_of ''hellohello'')) = Inr raw
             \<and> elems raw = bytes_of ''hellohello'')"
proof -
  have a: "\<forall>x \<in> set (bytes_of ''hellohello''). x < 128"
    by (simp add: bytes_of_def)
  have b: "pack7bit (bytes_of ''hellohello'') = [0xE8, 0x32, 0x9B, 0xFD, 0x46, 0x97, 0xD9, 0xEC, 0x37]"
    by (simp add: pack7bit_def bytes_of_def le_bytes_numeral)
  from a b pack_unpack7bit_roundtrip [OF a] show ?thesis by blast
qed

lemma pack7bit_hello: "pack7bit (bytes_of ''hello'') = [0xE8, 0x32, 0x9B, 0xFD, 0x06]"
  by (simp add: pack7bit_def bytes_of_def le_bytes_numeral)

section \<open>The protocol identifier\<close>

lemma payload_Protocol:
  assumes "parseDeliverMessage_payload msg p k = Inr (msg', n)"
  shows "Protocol msg' = Protocol msg"
  using assms unfolding parseDeliverMessage_payload_def Let_def
  by (auto elim!: and_thenE split: if_splits)

lemma concat_Protocol:
  assumes "parseDeliverMessage_concat msg ud k = Inr (msg', n)"
  shows "Protocol msg' = Protocol msg"
  using assms unfolding parseDeliverMessage_concat_def Let_def
  by (auto elim!: and_thenE split: if_splits)

text \<open>
  Claim C10. For every input buffer, the message that \<open>parseDeliverMessage\<close> returns
  has \<open>Protocol = 0\<close>: the field keeps the zero value of the named result, whatever byte
  stands at the protocol identifier's place.
\<close>

theorem parseDeliverMessage_Protocol_zero:
  assumes "parseDeliverMessage s = Inr (msg, n)"
  shows "Protocol msg = 0"
  using assms unfolding parseDeliverMessage_def Let_def
  apply (elim and_thenE)
  apply (simp split: prod.splits)
  apply (elim and_thenE)
  apply (drule payload_Protocol)
  apply (drule concat_Protocol)
  apply (simp add: zero_deliverMessage_def)
  done

text \<open>
  A TPDU from the number 12345678901 with the text "hello" in 7-bit form; its protocol
  identifier byte (offset 9) is \<open>0x7f\<close>.
\<close>

theorem parseDeliverMessage_Protocol_zero_witness:
  "parseDeliverMessage (slice_of [0x04, 0x0b, 0x91, 0x21, 0x43, 0x65, 0x87, 0x09, 0xf1, 0x7f, 0x00,
      0x11, 0x21, 0x13, 0x41, 0x55, 0x95, 0x21, 0x05, 0xE8, 0x32, 0x9B, 0xFD, 0x06]) =
   Inr (\<lparr>MsgType = 0, MoreMsg = False, FromAddr = bytes_of ''12345678901'', Protocol = 0,
         Compressed = False, Unicode = False,
         SMSCStamp = \<lparr>unix_sec = 1325332559, nsec = 0, loc = FixedZone [] 10800\<rparr>,
         RawData = \<lparr>arr = bytes_of ''hello'' @ [0], len = 5\<rparr>, Concat = False, Ref = 0,
         Part = 0, NParts = 0\<rparr>, 24)
   \<and> Protocol \<lparr>MsgType = 0, MoreMsg = False, FromAddr = bytes_of ''12345678901'', Protocol = 0,
         Compressed = False, Unicode = False,
         SMSCStamp = \<lparr>unix_sec = 1325332559, nsec = 0, loc = FixedZone [] 10800\<rparr>,
         RawData = \<lparr>arr = bytes_of ''hello'' @ [0], len = 5\<rparr>, Concat = False, Ref = 0,
         Part = 0, NParts = 0\<rparr> = 0"
proof -
  have e: "parseDeliverMessage (slice_of [0x04, 0x0b, 0x91, 0x21, 0x43, 0x65, 0x87, 0x09, 0xf1, 0x7f, 0x00,
      0x11, 0x21, 0x13, 0x41, 0x55, 0x95, 0x21, 0x05, 0xE8, 0x32, 0x9B, 0xFD, 0x06]) =
   Inr (\<lparr>MsgType = 0, MoreMsg = False, FromAddr = bytes_of ''12345678901'', Protocol = 0,
         Compressed = False, Unicode = False,
         SMSCStamp = \<lparr>unix_sec = 1325332559, nsec = 0, loc = FixedZone [] 10800\<rparr>,
         RawData = \<lparr>arr = bytes_of ''hello'' @ [0], len = 5\<rparr>, Concat = False, Ref = 0,
         Part = 0, NParts = 0\<rparr>, 24)"
    by (simp add: parseDeliverMessage_def parseDeliverMessage_payload_def
          parseDeliverMessage_concat_def slice_of_def index_def slice_from_def slice_range_def
          cap_def Let_def zero_deliverMessage_def decodeBCD_def elems_def parseDateTime_def
          upt_rec semi_octet_def time_Date_FixedZone_def daysSinceEpoch_def daysBefore_def
          isLeap_def unpack7bit_def unpack7bit_drain.simps bytes_of_def)
  from e parseDeliverMessage_Protocol_zero [OF e] show ?thesis
    by (rule conjI)
qed

section \<open>The concatenation header\<close>

lemma parseDateTime_total:
  assumes "len b = 7"
  shows "\<exists>t. parseDateTime b = Inr t"
proof -
  have u: "[0 ..< 7] = [0, 1, 2, 3, 4, 5, 6::nat]"
    by (simp add: upt_rec)
  show ?thesis
    unfolding parseDateTime_def u using assms by (simp add: index_def)
qed

lemma index_ok: "i < len s \<Longrightarrow> index s i = Inr (arr s ! i)"
  by (simp add: index_def)

lemma slice_from_ok:
  "a \<le> len s \<Longrightarrow> slice_from s a = Inr \<lparr>arr = drop a (arr s), len = len s - a\<rparr>"
  by (simp add: slice_from_def)

lemma slice_range_ok:
  "a \<le> b \<Longrightarrow> b \<le> length (arr s) \<Longrightarrow>
   slice_range s a b = Inr \<lparr>arr = drop a (arr s), len = b - a\<rparr>"
  by (simp add: slice_range_def cap_def)

lemma parseDeliverMessage_header:
  assumes wf: "wf_slice s"
    and hlen: "3 + (unat (arr s ! 1) + 1) div 2 + 9 < len s"
  shows "\<exists>msg4. Unicode msg4 = (arr s ! (3 + (unat (arr s ! 1) + 1) div 2 + 1) AND 8 \<noteq> 0)
           \<and> RawData msg4 = nil_slice
           \<and> parseDeliverMessage s =
               and_then (parseDeliverMessage_payload msg4
                          \<lparr>arr = drop (3 + (unat (arr s ! 1) + 1) div 2 + 9) (arr s),
                           len = len s - (3 + (unat (arr s ! 1) + 1) div 2 + 9)\<rparr>
                          (3 + (unat (arr s ! 1) + 1) div 2 + 9))
                 (\<lambda>(msg5, size3).
                    and_then (slice_from \<lparr>arr = drop (3 + (unat (arr s ! 1) + 1) div 2 + 9) (arr s),
                           len = len s - (3 + (unat (arr s ! 1) + 1) div 2 + 9)\<rparr> 1)
                      (\<lambda>ud. parseDeliverMessage_concat msg5 ud size3))"
proof -
  define k where "k = Suc (unat (arr s ! Suc 0)) div 2"
  have lenA: "len s \<le> length (arr s)" using wf by (simp add: wf_slice_def)
  have hk: "k + 12 < len s" using hlen by (simp add: k_def)
  obtain t where t: "parseDateTime \<lparr>arr = drop (5 + k) (arr s), len = 7\<rparr> = Inr t"
    using parseDateTime_total [of "\<lparr>arr = drop (5 + k) (arr s), len = 7\<rparr>"] by auto
  have i0: "index s 0 = Inr (arr s ! 0)" and i1: "index s (Suc 0) = Inr (arr s ! Suc 0)"
    using hk by (simp_all add: index_ok)
  have r1: "slice_range s 3 (3 + k) = Inr \<lparr>arr = drop 3 (arr s), len = k\<rparr>"
    using hk lenA by (simp add: slice_range_ok)
  have f1: "slice_from s (3 + k) = Inr \<lparr>arr = drop (3 + k) (arr s), len = len s - (3 + k)\<rparr>"
    using hk by (simp add: slice_from_ok)
  have i2: "index \<lparr>arr = drop (3 + k) (arr s), len = len s - (3 + k)\<rparr> (Suc 0) = Inr (arr s ! (4 + k))"
    using hk lenA by (simp add: index_ok)
  have r2: "slice_range \<lparr>arr = drop (3 + k) (arr s), len = len s - (3 + k)\<rparr> 2 9 =
              Inr \<lparr>arr = drop (5 + k) (arr s), len = 7\<rparr>"
    using hk lenA by (simp add: slice_range_ok)
  have f2: "slice_from s (12 + k) =
              Inr \<lparr>arr = drop (12 + k) (arr s), len = len s - (12 + k)\<rparr>"
    using hk by (simp add: slice_from_ok)
  show ?thesis
    unfolding parseDeliverMessage_def
    apply (simp add: i0 i1 r1 [unfolded k_def] f1 [unfolded k_def] i2 [unfolded k_def]
          r2 [unfolded k_def] t [unfolded k_def] f2 [unfolded k_def] Let_def
          zero_deliverMessage_def)
    apply (rule exI)
    apply (intro conjI)
      prefer 3
      apply (rule refl)
     apply simp_all
    done
qed


lemma payload_unicode:
  assumes "Unicode msg" and "0 < len p" and "unat (arr p ! 0) + 1 \<le> length (arr p)"
  shows "parseDeliverMessage_payload msg p k =
           Inr (msg\<lparr>RawData := \<lparr>arr = drop 1 (arr p), len = unat (arr p ! 0)\<rparr>\<rparr>,
                k + (unat (arr p ! 0) + 1))"
  using assms
  by (simp add: parseDeliverMessage_payload_def index_ok slice_range_ok Let_def)

lemma unpack7bit_enough:
  assumes "n - n div 8 \<le> length xs"
  shows "n \<le> len (unpack7bit \<lparr>arr = xs, len = n - n div 8\<rparr>)"
    and "len (unpack7bit \<lparr>arr = xs, len = n - n div 8\<rparr>)
           \<le> length (arr (unpack7bit \<lparr>arr = xs, len = n - n div 8\<rparr>))"
proof -
  have "length (elems \<lparr>arr = xs, len = n - n div 8\<rparr>) = n - n div 8"
    using assms by (simp add: elems_def)
  then have "len (unpack7bit \<lparr>arr = xs, len = n - n div 8\<rparr>) = 8 * (n - n div 8) div 7"
    by (simp add: len_unpack7bit)
  then show "n \<le> len (unpack7bit \<lparr>arr = xs, len = n - n div 8\<rparr>)"
    using septet_count [of n] by simp
  show "len (unpack7bit \<lparr>arr = xs, len = n - n div 8\<rparr>)
           \<le> length (arr (unpack7bit \<lparr>arr = xs, len = n - n div 8\<rparr>))"
    by (simp add: unpack7bit_def Let_def)
qed

lemma payload_7bit:
  assumes "\<not> Unicode msg" and "0 < len p" and "n = unat (arr p ! 0)"
    and "1 + (n - n div 8) \<le> length (arr p)"
  shows "parseDeliverMessage_payload msg p k =
           Inr (msg\<lparr>RawData :=
                  \<lparr>arr = arr (unpack7bit \<lparr>arr = drop 1 (arr p), len = n - n div 8\<rparr>), len = n\<rparr>\<rparr>,
                k + (n - n div 8 + 1))"
proof -
  have "n - n div 8 \<le> length (drop 1 (arr p))"
    using assms(4) by simp
  from unpack7bit_enough [OF this]
  have "n \<le> length (arr (unpack7bit \<lparr>arr = drop 1 (arr p), len = n - n div 8\<rparr>))"
    by (rule order_trans)
  then have r: "slice_range (unpack7bit \<lparr>arr = drop 1 (arr p), len = n - n div 8\<rparr>) 0 n =
      Inr \<lparr>arr = arr (unpack7bit \<lparr>arr = drop 1 (arr p), len = n - n div 8\<rparr>), len = n\<rparr>"
    by (simp add: slice_range_ok)
  have p: "slice_range p 1 (1 + (n - n div 8)) = Inr \<lparr>arr = drop 1 (arr p), len = n - n div 8\<rparr>"
    using assms(4) by (simp add: slice_range_ok)
  show ?thesis
    using assms(1,2)
    by (simp add: parseDeliverMessage_payload_def index_ok Let_def assms(3) [symmetric]
          p [simplified] r [simplified])
qed

lemma concat_8bit:
  assumes "6 \<le> len ud" and "arr ud ! 0 = 5" and "arr ud ! 1 = 0" and "arr ud ! 2 = 3"
    and "(if Unicode msg then 6 else 7) \<le> len (RawData msg)"
  shows "parseDeliverMessage_concat msg ud k =
           Inr (msg\<lparr>Concat := True, Part := uint (arr ud ! 5), NParts := uint (arr ud ! 4),
                    Ref := uint (arr ud ! 3),
                    RawData := \<lparr>arr = drop (if Unicode msg then 6 else 7) (arr (RawData msg)),
                                len = len (RawData msg) - (if Unicode msg then 6 else 7)\<rparr>\<rparr>, k)"
  using assms
  by (simp add: parseDeliverMessage_concat_def index_ok slice_from_ok Let_def)

lemma concat_16bit:
  assumes "7 \<le> len ud" and "arr ud ! 0 = 6" and "arr ud ! 1 = 8" and "arr ud ! 2 = 4"
    and "(if Unicode msg then 7 else 8) \<le> len (RawData msg)"
  shows "parseDeliverMessage_concat msg ud k =
           Inr (msg\<lparr>Concat := True, Part := uint (arr ud ! 6), NParts := uint (arr ud ! 5),
                    Ref := push_bit 8 (uint (arr ud ! 3)) OR uint (arr ud ! 4),
                    RawData := \<lparr>arr = drop (if Unicode msg then 7 else 8) (arr (RawData msg)),
                                len = len (RawData msg) - (if Unicode msg then 7 else 8)\<rparr>\<rparr>, k)"
  using assms
  by (simp add: parseDeliverMessage_concat_def index_ok slice_from_ok Let_def)


lemma elems_drop_slice:
  "elems \<lparr>arr = drop k xs, len = n - k\<rparr> = drop k (take n xs)"
  by (simp add: elems_def drop_take)

lemma take_elems_unpack:
  assumes "n \<le> len u"
  shows "take n (arr u) = take n (elems u)"
  using assms by (simp add: elems_def min_absorb1)

text \<open>
  Claim C4, as amended. Let \<open>h\<close> be the offset of the user-data-length byte, \<open>n\<close> its
  value, \<open>ud\<close> the bytes after it, \<open>uni\<close> the Unicode bit of the format byte and \<open>raw\<close>
  the user data before stripping (the first \<open>n\<close> bytes of \<open>ud\<close> if Unicode, else the \<open>n\<close>
  septets unpacked from \<open>ud\<close>), all present in the buffer. If at least 6 bytes follow the
  length byte, they begin \<open>05 00 03\<close> and \<open>n\<close> is at least 6 (Unicode) or 7 (7-bit), the
  parser records \<open>Ref = ud[3]\<close>, \<open>NParts = ud[4]\<close>, \<open>Part = ud[5]\<close> and \<open>RawData\<close> is
  \<open>raw\<close> without its first 6 (Unicode) or 7 (7-bit) elements. If at least 7 bytes
  follow, they begin \<open>06 08 04\<close> and \<open>n\<close> is at least 7 or 8, it records
  \<open>Ref = ud[3]<<8 | ud[4]\<close>, \<open>NParts = ud[5]\<close>, \<open>Part = ud[6]\<close> and strips 7 or 8.
\<close>

theorem parseDeliverMessage_concat_header:
  assumes wf: "wf_slice s"
    and h: "h = 12 + (unat (arr s ! 1) + 1) div 2"
    and hlen: "h < len s"
    and n: "n = unat (arr s ! h)"
    and ud: "ud = drop (h + 1) (arr s)"
    and uni: "uni = (arr s ! (h - 8) AND 8 \<noteq> 0)"
    and present: "h + 1 + (if uni then n else n - n div 8) \<le> length (arr s)"
    and raw: "raw = (if uni then take n ud
                     else take n (elems (unpack7bit \<lparr>arr = ud, len = n - n div 8\<rparr>)))"
  shows "(6 \<le> len s - (h + 1) \<and> ud ! 0 = 5 \<and> ud ! 1 = 0 \<and> ud ! 2 = 3
            \<and> (if uni then 6 else 7) \<le> n \<longrightarrow>
          (\<exists>msg. parseDeliverMessage s = Inr (msg, h + 1 + (if uni then n else n - n div 8))
              \<and> Unicode msg = uni \<and> Concat msg
              \<and> Ref msg = uint (ud ! 3) \<and> NParts msg = uint (ud ! 4) \<and> Part msg = uint (ud ! 5)
              \<and> elems (RawData msg) = drop (if uni then 6 else 7) raw))
       \<and> (7 \<le> len s - (h + 1) \<and> ud ! 0 = 6 \<and> ud ! 1 = 8 \<and> ud ! 2 = 4
            \<and> (if uni then 7 else 8) \<le> n \<longrightarrow>
          (\<exists>msg. parseDeliverMessage s = Inr (msg, h + 1 + (if uni then n else n - n div 8))
              \<and> Unicode msg = uni \<and> Concat msg
              \<and> Ref msg = push_bit 8 (uint (ud ! 3)) OR uint (ud ! 4)
              \<and> NParts msg = uint (ud ! 5) \<and> Part msg = uint (ud ! 6)
              \<and> elems (RawData msg) = drop (if uni then 7 else 8) raw))"
proof -
  define p where "p = \<lparr>arr = drop h (arr s), len = len s - h\<rparr>"
  define us where "us = \<lparr>arr = ud, len = len s - (h + 1)\<rparr>"
  have lenA: "len s \<le> length (arr s)" using wf by (simp add: wf_slice_def)
  have hh: "3 + (unat (arr s ! 1) + 1) div 2 + 9 = h" by (simp add: h)
  have fm: "3 + (unat (arr s ! 1) + 1) div 2 + 1 = h - 8" by (simp add: h)
  from parseDeliverMessage_header [OF wf, unfolded hh fm, OF hlen]
  obtain msg4 where u4: "Unicode msg4 = uni" and r4: "RawData msg4 = nil_slice"
    and eq: "parseDeliverMessage s =
               and_then (parseDeliverMessage_payload msg4 p h)
                 (\<lambda>(msg5, size3). and_then (slice_from p 1)
                      (\<lambda>ud. parseDeliverMessage_concat msg5 ud size3))"
    unfolding p_def uni by blast
  have p0: "0 < len p" using hlen by (simp add: p_def)
  have pn: "unat (arr p ! 0) = n" using hlen lenA by (simp add: p_def n)
  have d1: "drop (Suc 0) (arr p) = ud" by (simp add: p_def ud)
  have sf: "slice_from p (Suc 0) = Inr us"
    using hlen by (simp add: slice_from_ok p_def us_def ud)
  obtain msg5 where
    pay: "parseDeliverMessage_payload msg4 p h = Inr (msg5, h + 1 + (if uni then n else n - n div 8))"
    and u5: "Unicode msg5 = uni"
    and r5: "len (RawData msg5) = n"
    and e5: "take n (arr (RawData msg5)) = raw"
  proof (cases uni)
    case True
    have "unat (arr p ! 0) + 1 \<le> length (arr p)"
      using present True pn by (simp add: p_def)
    from payload_unicode [OF _ p0 this, of msg4 h] u4 True
    have "parseDeliverMessage_payload msg4 p h =
            Inr (msg4\<lparr>RawData := \<lparr>arr = ud, len = n\<rparr>\<rparr>, h + 1 + (if uni then n else n - n div 8))"
      by (simp add: pn d1)
    then show ?thesis
      using that [of "msg4\<lparr>RawData := \<lparr>arr = ud, len = n\<rparr>\<rparr>"] u4 True raw by simp
  next
    case False
    have le: "1 + (n - n div 8) \<le> length (arr p)"
      using present False by (simp add: p_def)
    from payload_7bit [OF _ p0 pn [symmetric] le, of msg4 h] u4 False
    have "parseDeliverMessage_payload msg4 p h =
            Inr (msg4\<lparr>RawData := \<lparr>arr = arr (unpack7bit \<lparr>arr = ud, len = n - n div 8\<rparr>), len = n\<rparr>\<rparr>,
                 h + 1 + (if uni then n else n - n div 8))"
      by (simp add: d1)
    moreover have "n - n div 8 \<le> length ud"
      using le unfolding d1 [symmetric] by simp
    then have "take n (arr (unpack7bit \<lparr>arr = ud, len = n - n div 8\<rparr>)) =
               take n (elems (unpack7bit \<lparr>arr = ud, len = n - n div 8\<rparr>))"
      by (intro take_elems_unpack unpack7bit_enough)
    ultimately show ?thesis
      using that [of "msg4\<lparr>RawData := \<lparr>arr = arr (unpack7bit \<lparr>arr = ud, len = n - n div 8\<rparr>), len = n\<rparr>\<rparr>"]
        u4 False raw by simp
  qed
  have whole: "parseDeliverMessage s =
      parseDeliverMessage_concat msg5 us (h + 1 + (if uni then n else n - n div 8))"
    by (simp add: eq pay sf)
  have c8: "\<exists>msg. parseDeliverMessage s = Inr (msg, h + 1 + (if uni then n else n - n div 8))
              \<and> Unicode msg = uni \<and> Concat msg
              \<and> Ref msg = uint (ud ! 3) \<and> NParts msg = uint (ud ! 4) \<and> Part msg = uint (ud ! 5)
              \<and> elems (RawData msg) = drop (if uni then 6 else 7) raw"
    if g: "6 \<le> len s - (h + 1)" "ud ! 0 = 5" "ud ! 1 = 0" "ud ! 2 = 3" "(if uni then 6 else 7) \<le> n"
  proof -
    have "parseDeliverMessage_concat msg5 us (h + 1 + (if uni then n else n - n div 8)) =
           Inr (msg5\<lparr>Concat := True, Part := uint (arr us ! 5), NParts := uint (arr us ! 4),
                    Ref := uint (arr us ! 3),
                    RawData := \<lparr>arr = drop (if Unicode msg5 then 6 else 7) (arr (RawData msg5)),
                                len = len (RawData msg5) - (if Unicode msg5 then 6 else 7)\<rparr>\<rparr>,
                h + 1 + (if uni then n else n - n div 8))"
      using g by (intro concat_8bit) (simp_all add: us_def u5 r5)
    then show ?thesis
      unfolding whole
      by (simp add: us_def u5 r5 elems_drop_slice e5)
  qed
  have c16: "\<exists>msg. parseDeliverMessage s = Inr (msg, h + 1 + (if uni then n else n - n div 8))
              \<and> Unicode msg = uni \<and> Concat msg
              \<and> Ref msg = push_bit 8 (uint (ud ! 3)) OR uint (ud ! 4)
              \<and> NParts msg = uint (ud ! 5) \<and> Part msg = uint (ud ! 6)
              \<and> elems (RawData msg) = drop (if uni then 7 else 8) raw"
    if g: "7 \<le> len s - (h + 1)" "ud ! 0 = 6" "ud ! 1 = 8" "ud ! 2 = 4" "(if uni then 7 else 8) \<le> n"
  proof -
    have "parseDeliverMessage_concat msg5 us (h + 1 + (if uni then n else n - n div 8)) =
           Inr (msg5\<lparr>Concat := True, Part := uint (arr us ! 6), NParts := uint (arr us ! 5),
                    Ref := push_bit 8 (uint (arr us ! 3)) OR uint (arr us ! 4),
                    RawData := \<lparr>arr = drop (if Unicode msg5 then 7 else 8) (arr (RawData msg5)),
                                len = len (RawData msg5) - (if Unicode msg5 then 7 else 8)\<rparr>\<rparr>,
                h + 1 + (if uni then n else n - n div 8))"
      using g by (intro concat_16bit) (simp_all add: us_def u5 r5)
    then show ?thesis
      unfolding whole
      by (simp add: us_def u5 r5 elems_drop_slice e5)
  qed
  from c8 c16 show ?thesis by blast
qed

text \<open>
  Two TPDUs with an empty address: a Unicode one whose user data (10 bytes) begins
  \<open>05 00 03 07 03 02\<close>, and a 7-bit one whose user data (9 septets in 8 bytes) begins
  \<open>06 08 04 01 02 03 02\<close>.
\<close>

theorem parseDeliverMessage_concat_header_witness:
  "(\<exists>msg. parseDeliverMessage
            (slice_of [0x04, 0x00, 0x91, 0x7f, 0x08, 0x11, 0x21, 0x13, 0x41, 0x55, 0x95, 0x21,
                       0x0a, 5, 0, 3, 7, 3, 2, 0, 0x41, 0, 0x42]) = Inr (msg, 23)
      \<and> Unicode msg \<and> Concat msg \<and> Ref msg = 7 \<and> NParts msg = 3 \<and> Part msg = 2
      \<and> elems (RawData msg) = [0, 0x41, 0, 0x42])
   \<and> (\<exists>msg. parseDeliverMessage
            (slice_of [0x04, 0x00, 0x91, 0x7f, 0x00, 0x11, 0x21, 0x13, 0x41, 0x55, 0x95, 0x21,
                       0x09, 6, 8, 4, 1, 2, 3, 2, 0x41]) = Inr (msg, 21)
      \<and> \<not> Unicode msg \<and> Concat msg \<and> Ref msg = 258 \<and> NParts msg = 3 \<and> Part msg = 2
      \<and> elems (RawData msg) = [0x41])"
proof -
  define S :: "byte slice" where
    "S = slice_of [0x04, 0x00, 0x91, 0x7f, 0x08, 0x11, 0x21, 0x13, 0x41, 0x55, 0x95, 0x21,
                   0x0a, 5, 0, 3, 7, 3, 2, 0, 0x41, 0, 0x42]"
  have a: "wf_slice S" unfolding S_def by (rule wf_slice_of)
  have h: "12 = 12 + (unat (arr S ! 1) + 1) div 2" by (simp add: S_def slice_of_def)
  have hl: "12 < len S" by (simp add: S_def slice_of_def)
  have n: "10 = unat (arr S ! 12)" by (simp add: S_def slice_of_def)
  have ud: "[5, 0, 3, 7, 3, 2, 0, 0x41, 0, 0x42] = drop (12 + 1) (arr S)"
    by (simp add: S_def slice_of_def)
  have uni: "True = (arr S ! (12 - 8) AND 8 \<noteq> 0)" by (simp add: S_def slice_of_def)
  have present: "12 + 1 + (if True then 10 else 10 - 10 div 8) \<le> length (arr S)"
    by (simp add: S_def slice_of_def)
  have raw: "[5, 0, 3, 7, 3, 2, 0, 0x41, 0, 0x42] =
     (if True then take 10 [5, 0, 3, 7, 3, 2, 0, 0x41, 0, 0x42 :: byte]
      else take 10 (elems (unpack7bit
             \<lparr>arr = [5, 0, 3, 7, 3, 2, 0, 0x41, 0, 0x42], len = 10 - 10 div 8\<rparr>)))"
    by simp
  have g: "6 \<le> len S - (12 + 1)" by (simp add: S_def slice_of_def)
  from parseDeliverMessage_concat_header [OF a h hl n ud uni present raw, THEN conjunct1] g
  have 1: "\<exists>msg. parseDeliverMessage S = Inr (msg, 23)
      \<and> Unicode msg \<and> Concat msg \<and> Ref msg = 7 \<and> NParts msg = 3 \<and> Part msg = 2
      \<and> elems (RawData msg) = [0, 0x41, 0, 0x42]"
    by simp
  define Q :: "byte slice" where
    "Q = slice_of [0x04, 0x00, 0x91, 0x7f, 0x00, 0x11, 0x21, 0x13, 0x41, 0x55, 0x95, 0x21,
                   0x09, 6, 8, 4, 1, 2, 3, 2, 0x41]"
  have a': "wf_slice Q" unfolding Q_def by (rule wf_slice_of)
  have h': "12 = 12 + (unat (arr Q ! 1) + 1) div 2" by (simp add: Q_def slice_of_def)
  have hl': "12 < len Q" by (simp add: Q_def slice_of_def)
  have n': "9 = unat (arr Q ! 12)" by (simp add: Q_def slice_of_def)
  have ud': "[6, 8, 4, 1, 2, 3, 2, 0x41] = drop (12 + 1) (arr Q)"
    by (simp add: Q_def slice_of_def)
  have uni': "False = (arr Q ! (12 - 8) AND 8 \<noteq> 0)" by (simp add: Q_def slice_of_def)
  have present': "12 + 1 + (if False then 9 else 9 - 9 div 8) \<le> length (arr Q)"
    by (simp add: Q_def slice_of_def)
  have raw': "[6, 16, 16, 8, 32, 96, 0, 1, 0x41] =
     (if False then take 9 [6, 8, 4, 1, 2, 3, 2, 0x41 :: byte]
      else take 9 (elems (unpack7bit \<lparr>arr = [6, 8, 4, 1, 2, 3, 2, 0x41], len = 9 - 9 div 8\<rparr>)))"
    by (simp add: unpack7bit_def elems_def Let_def unpack7bit_drain.simps)
  have g': "7 \<le> len Q - (12 + 1)" by (simp add: Q_def slice_of_def)
  from parseDeliverMessage_concat_header [OF a' h' hl' n' ud' uni' present' raw', THEN conjunct2] g'
  have 2: "\<exists>msg. parseDeliverMessage Q = Inr (msg, 21)
      \<and> \<not> Unicode msg \<and> Concat msg \<and> Ref msg = 258 \<and> NParts msg = 3 \<and> Part msg = 2
      \<and> elems (RawData msg) = [0x41]"
    by simp
  from 1 2 show ?thesis
    unfolding S_def Q_def by (rule conjI)
qed

text \<open>
  The claim as first stated covers every buffer whose first 3 bytes are \<open>05 00 03\<close>.
  The parser asks for 6 bytes after the length byte before it looks at them: with the
  5 bytes \<open>05 00 03 07 03\<close> it records no concatenation and strips nothing.
\<close>

theorem parseDeliverMessage_concat_short_counterexample:
  "parseDeliverMessage
     (slice_of [0x04, 0x00, 0x91, 0x7f, 0x08, 0x11, 0x21, 0x13, 0x41, 0x55, 0x95, 0x21,
                0x05, 5, 0, 3, 7, 3]) =
   Inr (\<lparr>MsgType = 0, MoreMsg = False, FromAddr = [], Protocol = 0,
         Compressed = False, Unicode = True,
         SMSCStamp = \<lparr>unix_sec = 1325332559, nsec = 0, loc = FixedZone [] 10800\<rparr>,
         RawData = \<lparr>arr = [5, 0, 3, 7, 3], len = 5\<rparr>, Concat = False, Ref = 0,
         Part = 0, NParts = 0\<rparr>, 18)"
  by (simp add: parseDeliverMessage_def parseDeliverMessage_payload_def
        parseDeliverMessage_concat_def slice_of_def index_def slice_from_def slice_range_def
        cap_def Let_def zero_deliverMessage_def decodeBCD_def elems_def parseDateTime_def
        upt_rec semi_octet_def time_Date_FixedZone_def daysSinceEpoch_def daysBefore_def
        isLeap_def)

text \<open>
  When the length byte says 4 and the bytes after it are \<open>05 00 03 07 03 02\<close>, the
  header is recognised and the stripping \<open>RawData[6:]\<close> of the 4 bytes panics.
\<close>

lemma parseDeliverMessage_concat_panic_example:
  "parseDeliverMessage
     (slice_of [0x04, 0x00, 0x91, 0x7f, 0x08, 0x11, 0x21, 0x13, 0x41, 0x55, 0x95, 0x21,
                0x04, 5, 0, 3, 7, 3, 2]) = Inl SliceBoundsOutOfRange"
  by (simp add: parseDeliverMessage_def parseDeliverMessage_payload_def
        parseDeliverMessage_concat_def slice_of_def index_def slice_from_def slice_range_def
        cap_def Let_def zero_deliverMessage_def decodeBCD_def elems_def parseDateTime_def
        upt_rec semi_octet_def time_Date_FixedZone_def daysSinceEpoch_def daysBefore_def
        isLeap_def)

section \<open>The text after the TPDU\<close>

lemma wf_slice_from:
  assumes "wf_slice s" and "slice_from s a = Inr r"
  shows "wf_slice r"
  using assms by (auto simp: wf_slice_def slice_from_def split: if_splits)

lemma slice_from_0: "slice_from s 0 = Inr s"
  by (simp add: slice_from_def)

lemma uint_be16:
  "uint (ucast (lo :: byte) OR push_bit 8 (ucast (hi :: byte)) :: 16 word) = uint hi * 256 + uint lo"
proof -
  have lo: "unat lo < 2 ^ 8" using unsigned_less [of lo] by simp
  then have "unat (ucast lo :: 16 word) = unat lo"
    by (simp add: unsigned_ucast_eq take_bit_eq_mod)
  with lo have "unat (ucast lo :: 16 word) < 2 ^ 8" by simp
  from unat_or_in [OF this, of hi] \<open>unat (ucast lo :: 16 word) = unat lo\<close>
  have "unat (ucast lo OR push_bit 8 (ucast hi) :: 16 word) = unat lo + 256 * unat hi"
    by simp
  then have "int (unat (ucast lo OR push_bit 8 (ucast hi) :: 16 word)) = int (unat lo + 256 * unat hi)"
    by simp
  then show ?thesis by simp
qed

lemma BigEndian_Uint16_pair:
  "BigEndian_Uint16 \<lparr>arr = xs, len = 2\<rparr> = Inr (ucast (xs ! 1) OR push_bit 8 (ucast (xs ! 0)))"
  by (simp add: BigEndian_Uint16_def index_def)

lemma take_drop_two:
  assumes "2 * i + 2 \<le> length xs"
  shows "take (2 * Suc k) (drop (2 * i) xs) =
           xs ! (2 * i) # xs ! (2 * i + 1) # take (2 * k) (drop (2 * Suc i) xs)"
proof -
  have "drop (2 * i) xs = xs ! (2 * i) # drop (Suc (2 * i)) xs"
    using assms by (intro Cons_nth_drop_Suc [symmetric]) simp
  moreover have "drop (Suc (2 * i)) xs = xs ! (Suc (2 * i)) # drop (Suc (Suc (2 * i))) xs"
    using assms by (intro Cons_nth_drop_Suc [symmetric]) simp
  ultimately show ?thesis by simp
qed

lemma parseMessage_text_ok:
  "2 * (i + k) \<le> length (arr pdu) \<Longrightarrow>
   parseMessage_text k pdu i acc =
     Inr (acc @ be16_units (take (2 * k) (drop (2 * i) (arr pdu))))"
proof (induction k arbitrary: i acc)
  case 0
  show ?case by simp
next
  case (Suc k)
  then have le: "2 * i + 2 \<le> length (arr pdu)" by simp
  have r: "slice_range pdu (2 * i) (2 * i + 2) = Inr \<lparr>arr = drop (2 * i) (arr pdu), len = 2\<rparr>"
    using le by (simp add: slice_range_def cap_def)
  have n0: "drop (2 * i) (arr pdu) ! 0 = arr pdu ! (2 * i)"
    and n1: "drop (2 * i) (arr pdu) ! 1 = arr pdu ! (2 * i + 1)"
    using le by simp_all
  from Suc.prems have "2 * (Suc i + k) \<le> length (arr pdu)" by simp
  from Suc.IH [OF this]
  have "parseMessage_text k pdu (i + 1) (acc @ [uint (arr pdu ! (2 * i)) * 256 + uint (arr pdu ! (2 * i + 1))])
      = Inr ((acc @ [uint (arr pdu ! (2 * i)) * 256 + uint (arr pdu ! (2 * i + 1))])
             @ be16_units (take (2 * k) (drop (2 * Suc i) (arr pdu))))"
    by simp
  then show ?case
    by (simp only: parseMessage_text.simps r and_then.simps BigEndian_Uint16_pair n0 n1 uint_be16
          take_drop_two [OF le] be16_units.simps append_assoc append_Cons append_Nil)
qed

lemma parseMessage_text_panic:
  "0 < k \<Longrightarrow> length (arr pdu) < 2 * (i + k) \<Longrightarrow>
   parseMessage_text k pdu i acc = Inl SliceBoundsOutOfRange"
proof (induction k arbitrary: i acc)
  case 0
  then show ?case by simp
next
  case (Suc k)
  show ?case
  proof (cases "2 * i + 2 \<le> length (arr pdu)")
    case False
    then show ?thesis by (simp add: slice_range_def cap_def)
  next
    case True
    then have r: "slice_range pdu (2 * i) (2 * i + 2) = Inr \<lparr>arr = drop (2 * i) (arr pdu), len = 2\<rparr>"
      by (simp add: slice_range_def cap_def)
    from True Suc.prems have "0 < k" and "length (arr pdu) < 2 * (Suc i + k)" by simp_all
    from Suc.IH [OF this] show ?thesis
      by (simp only: parseMessage_text.simps r and_then.simps BigEndian_Uint16_pair) simp
  qed
qed


text \<open>
  What \<open>parseMessage\<close> does after the TPDU. Let \<open>rest\<close> be what remains of the buffer
  (after the \<open>n\<close> bytes of an SMS-DELIVER, or from the type byte on for the types 1 and
  2). If \<open>rest\<close> is not empty and shorter than 72, the call returns the truncation
  error. If it has 72 bytes or more, the length is the byte at offset 70 (offset 5 after
  the 65 skipped bytes) and the text starts at offset 71; the \<open>length/2\<close> code units are
  decoded big-endian as \<open>Text\<close> when the array behind the buffer holds them, and the
  slice \<open>pdu[2*i : 2*i+2]\<close> panics when it does not.
\<close>

lemma parseMessage_after_tpdu:
  assumes wf: "wf_slice s"
    and peer: "parseMessage_peer s 0x5e [] = Inr runes"
    and pdu: "slice_from s 0xb0 = Inr pdu"
    and c: "index pdu 0 = Inr c"
    and tpdu: "(c AND 3 = 0 \<and> parseDeliverMessage pdu = Inr (msg, n)) \<or>
               ((c AND 3 = 1 \<or> c AND 3 = 2) \<and> msg = zero_deliverMessage \<and> n = 0)"
    and rest: "slice_from pdu n = Inr rest"
  shows "(0 < len rest \<and> len rest < 72 \<longrightarrow>
            parseMessage s = Inr (zero_rawMessage, Some (Errorf (bytes_of ''truncated message''))))
       \<and> (72 \<le> len rest \<and> 71 + 2 * (unat (arr rest ! 70) div 2) \<le> length (arr rest) \<longrightarrow>
            parseMessage s =
              Inr (\<lparr>Peer = string_of_runes (utf16_Decode runes),
                    Text = string_of_runes
                             (be16_units (take (2 * (unat (arr rest ! 70) div 2)) (drop 71 (arr rest)))),
                    Msg = msg\<rparr>, None))
       \<and> (72 \<le> len rest \<and> length (arr rest) < 71 + 2 * (unat (arr rest ! 70) div 2) \<longrightarrow>
            parseMessage s = Inl SliceBoundsOutOfRange)"
proof -
  define L where "L = unat (arr rest ! 70)"
  define pdu2 where "pdu2 = \<lparr>arr = drop 71 (arr rest), len = len rest - 71\<rparr>"
  have wr: "wf_slice rest"
    using wf_slice_from [OF wf_slice_from [OF wf pdu] rest] .
  then have lenR: "len rest \<le> length (arr rest)" by (simp add: wf_slice_def)
  have mid: "(if c AND 3 = 0 then
          and_then (parseDeliverMessage pdu) (\<lambda>(msg, n).
          and_then (slice_from pdu n) (\<lambda>pdu'.
          Inr (msg, pdu')))
        else if c AND 3 = 1 then Inr (zero_deliverMessage, pdu)
        else if c AND 3 = 2 then Inr (zero_deliverMessage, pdu)
        else if c AND 3 = 3 then Inl (PanicMsg (bytes_of ''invalid message type 3''))
        else Inr (zero_deliverMessage, pdu)) = Inr (msg, rest)"
    using tpdu rest by (auto simp: slice_from_0)
  have whole: "parseMessage s =
     (if len rest = 0 then Inr (\<lparr>Peer = string_of_runes (utf16_Decode runes), Text = [], Msg = msg\<rparr>, None)
      else if len rest < 72 then
        Inr (zero_rawMessage, Some (Errorf (bytes_of ''truncated message'')))
      else
        and_then (slice_from rest 65) (\<lambda>pdu1.
        and_then (index pdu1 5) (\<lambda>lb.
        and_then (slice_from pdu1 6) (\<lambda>pdu2.
        and_then (parseMessage_text (unat lb div 2) pdu2 0 []) (\<lambda>text.
        Inr (\<lparr>Peer = string_of_runes (utf16_Decode runes), Text = string_of_runes text,
              Msg = msg\<rparr>, None))))))"
    unfolding parseMessage_def
    by (simp only: peer pdu c mid and_then.simps Let_def prod.case)
  have long: "parseMessage s =
        and_then (parseMessage_text (L div 2) pdu2 0 []) (\<lambda>text.
        Inr (\<lparr>Peer = string_of_runes (utf16_Decode runes), Text = string_of_runes text,
              Msg = msg\<rparr>, None))"
    if "72 \<le> len rest"
  proof -
    have a: "slice_from rest 65 = Inr \<lparr>arr = drop 65 (arr rest), len = len rest - 65\<rparr>"
      using that by (simp add: slice_from_def)
    have b: "index \<lparr>arr = drop 65 (arr rest), len = len rest - 65\<rparr> 5 = Inr (arr rest ! 70)"
      using that lenR by (simp add: index_def)
    have d: "slice_from \<lparr>arr = drop 65 (arr rest), len = len rest - 65\<rparr> 6 = Inr pdu2"
      using that by (simp add: slice_from_def pdu2_def)
    from that have "\<not> len rest = 0" "\<not> len rest < 72" by simp_all
    then show ?thesis
      unfolding whole L_def
      by (simp only: a b d and_then.simps if_False)
  qed
  have t: "parseMessage s = Inr (zero_rawMessage, Some (Errorf (bytes_of ''truncated message'')))"
    if "0 < len rest" "len rest < 72"
    using that unfolding whole by simp
  have ok: "parseMessage s =
              Inr (\<lparr>Peer = string_of_runes (utf16_Decode runes),
                    Text = string_of_runes (be16_units (take (2 * (L div 2)) (drop 71 (arr rest)))),
                    Msg = msg\<rparr>, None)"
    if "72 \<le> len rest" "71 + 2 * (L div 2) \<le> length (arr rest)"
  proof -
    have "2 * (0 + L div 2) \<le> length (arr pdu2)"
      using that by (simp add: pdu2_def)
    from parseMessage_text_ok [OF this, of "[]"] show ?thesis
      unfolding long [OF that(1)] by (simp add: pdu2_def)
  qed
  have bad: "parseMessage s = Inl SliceBoundsOutOfRange"
    if "72 \<le> len rest" "length (arr rest) < 71 + 2 * (L div 2)"
  proof -
    from that lenR have "0 < L div 2" by (cases "L div 2") simp_all
    moreover have "length (arr pdu2) < 2 * (0 + L div 2)"
      using that lenR by (simp add: pdu2_def)
    ultimately have "parseMessage_text (L div 2) pdu2 0 [] = Inl SliceBoundsOutOfRange"
      by (rule parseMessage_text_panic)
    then show ?thesis
      unfolding long [OF that(1)] by simp
  qed
  from t ok bad show ?thesis
    unfolding L_def by blast
qed

text \<open>
  Two message files. The first holds an SMS-SUBMIT type byte and 70 more bytes: 71 bytes
  remain, and the call returns the truncation error. The second holds the peer name
  "A", the TPDU of "hello" from 12345678901 and 75 more bytes, of which byte 70 is the
  length 4 and the last four are the text "Hi".
\<close>

lemma parseMessage_after_tpdu_examples:
  "parseMessage (slice_of (replicate 176 0 @ [1] @ replicate 70 0)) =
     Inr (zero_rawMessage, Some (Errorf (bytes_of ''truncated message'')))
   \<and> (\<exists>msg. parseMessage (slice_of (replicate 94 0 @ [0, 0x41] @ replicate 80 0 @
          [0x04, 0x0b, 0x91, 0x21, 0x43, 0x65, 0x87, 0x09, 0xf1, 0x7f, 0x00,
           0x11, 0x21, 0x13, 0x41, 0x55, 0x95, 0x21, 0x05, 0xE8, 0x32, 0x9B, 0xFD, 0x06] @
          replicate 70 0 @ [4, 0, 0x48, 0, 0x69])) =
     Inr (\<lparr>Peer = bytes_of ''A'', Text = bytes_of ''Hi'', Msg = msg\<rparr>, None))"
proof -
  define S :: "byte slice" where "S = slice_of (replicate 176 0 @ [1] @ replicate 70 0)"
  define P :: "byte slice" where "P = slice_of ([1] @ replicate 70 0)"
  have wf: "wf_slice S" unfolding S_def by (rule wf_slice_of)
  have peer: "parseMessage_peer S 0x5e [] = Inr []"
    by (simp add: S_def parseMessage_peer.simps [of _ "0x5e"] index_def slice_of_def nth_append)
  have pdu: "slice_from S 0xb0 = Inr P"
    by (simp add: S_def P_def slice_from_def slice_of_def)
  have c: "index P 0 = Inr 1"
    by (simp add: P_def index_def slice_of_def)
  have tpdu: "((1::byte) AND 3 = 0 \<and> parseDeliverMessage P = Inr (zero_deliverMessage, 0)) \<or>
               (((1::byte) AND 3 = 1 \<or> (1::byte) AND 3 = 2) \<and>
                zero_deliverMessage = zero_deliverMessage \<and> (0::nat) = 0)"
    by simp
  have rest: "slice_from P 0 = Inr P"
    by (simp add: slice_from_def)
  have short: "0 < len P \<and> len P < 72"
    by (simp add: P_def slice_of_def)
  from parseMessage_after_tpdu [OF wf peer pdu c tpdu rest, THEN conjunct1] short
  have 1: "parseMessage S = Inr (zero_rawMessage, Some (Errorf (bytes_of ''truncated message'')))"
    by blast
  define T :: "byte slice" where
    "T = slice_of (replicate 94 0 @ [0, 0x41] @ replicate 80 0 @
          [0x04, 0x0b, 0x91, 0x21, 0x43, 0x65, 0x87, 0x09, 0xf1, 0x7f, 0x00,
           0x11, 0x21, 0x13, 0x41, 0x55, 0x95, 0x21, 0x05, 0xE8, 0x32, 0x9B, 0xFD, 0x06] @
          replicate 70 0 @ [4, 0, 0x48, 0, 0x69])"
  define Q :: "byte slice" where
    "Q = slice_of ([0x04, 0x0b, 0x91, 0x21, 0x43, 0x65, 0x87, 0x09, 0xf1, 0x7f, 0x00,
           0x11, 0x21, 0x13, 0x41, 0x55, 0x95, 0x21, 0x05, 0xE8, 0x32, 0x9B, 0xFD, 0x06] @
          replicate 70 0 @ [4, 0, 0x48, 0, 0x69])"
  define R :: "byte slice" where "R = slice_of (replicate 70 0 @ [4, 0, 0x48, 0, 0x69])"
  have wf': "wf_slice T" unfolding T_def by (rule wf_slice_of)
  have peer': "parseMessage_peer T 0x5e [] = Inr [0x41]"
    by (simp add: T_def parseMessage_peer.simps [of _ "0x5e"] parseMessage_peer.simps [of _ 96]
          index_def slice_of_def nth_append slice_range_def cap_def BigEndian_Uint16_def)
  have pdu': "slice_from T 0xb0 = Inr Q"
    by (simp add: T_def Q_def slice_from_def slice_of_def)
  have c': "index Q 0 = Inr 4"
    by (simp add: Q_def index_def slice_of_def)
  obtain msg where m: "parseDeliverMessage Q = Inr (msg, 24)"
    by (simp add: Q_def parseDeliverMessage_def parseDeliverMessage_payload_def
          parseDeliverMessage_concat_def slice_of_def index_def slice_from_def slice_range_def
          cap_def Let_def parseDateTime_def upt_rec unpack7bit_def unpack7bit_drain.simps
          elems_def nth_append)
  have tpdu': "((4::byte) AND 3 = 0 \<and> parseDeliverMessage Q = Inr (msg, 24)) \<or>
               (((4::byte) AND 3 = 1 \<or> (4::byte) AND 3 = 2) \<and> msg = zero_deliverMessage \<and>
                (24::nat) = 0)"
    using m by simp
  have rest': "slice_from Q 24 = Inr R"
    by (simp add: Q_def R_def slice_from_def slice_of_def)
  have long: "72 \<le> len R \<and> 71 + 2 * (unat (arr R ! 70) div 2) \<le> length (arr R)"
    by (simp add: R_def slice_of_def nth_append)
  have tx: "string_of_runes (be16_units (take (2 * (unat (arr R ! 70) div 2)) (drop 71 (arr R))))
               = bytes_of ''Hi''"
    by (simp add: R_def slice_of_def nth_append string_of_runes_def utf8_encode_def bytes_of_def)
  have pn: "string_of_runes (utf16_Decode [0x41]) = bytes_of ''A''"
    by (simp add: string_of_runes_def utf8_encode_def bytes_of_def)
  from parseMessage_after_tpdu [OF wf' peer' pdu' c' tpdu' rest', THEN conjunct2, THEN conjunct1] long
  have "parseMessage T = Inr (\<lparr>Peer = bytes_of ''A'', Text = bytes_of ''Hi'', Msg = msg\<rparr>, None)"
    unfolding tx pn by blast
  then have 2: "\<exists>msg. parseMessage T =
      Inr (\<lparr>Peer = bytes_of ''A'', Text = bytes_of ''Hi'', Msg = msg\<rparr>, None)"
    by blast
  from 1 2 show ?thesis
    unfolding S_def T_def by (rule conjI)
qed

text \<open>
  Claim C8. With fewer than 72 bytes after the TPDU the call returns the truncation
  error (lemma \<open>parseMessage_after_tpdu\<close>); with 72 bytes or more it is to decode
  \<open>length/2\<close> code units as \<open>Text\<close>. The check \<open>len(pdu) < 72\<close> covers the fixed
  fields and one byte, not the text that the length byte announces. In the buffer below
  72 bytes remain after the type byte at \<open>0xb0\<close>, the length byte says 4 and one byte
  follows it: the call neither decodes a text nor returns the truncation error, it
  panics.
\<close>

theorem parseMessage_text_truncated_panics:
  "parseMessage (slice_of (replicate 176 0 @ 1 # replicate 69 0 @ [4, 0])) =
     Inl SliceBoundsOutOfRange"
proof -
  have p: "parseMessage_peer (slice_of (replicate 176 0 @ 1 # replicate 69 0 @ [4, 0 :: byte])) 0x5e []
             = Inr []"
    by (simp add: parseMessage_peer.simps [of _ "0x5e"] index_def slice_of_def nth_append)
  have d: "slice_from (slice_of (replicate 176 0 @ 1 # replicate 69 0 @ [4, 0 :: byte])) 0xb0
             = Inr (slice_of (1 # replicate 69 0 @ [4, 0]))"
    by (simp add: slice_from_def slice_of_def)
  have e: "parseMessage_text 2 \<lparr>arr = [0 :: byte], len = Suc 0\<rparr> 0 [] = Inl SliceBoundsOutOfRange"
    using parseMessage_text_panic [of 2 "\<lparr>arr = [0 :: byte], len = Suc 0\<rparr>" 0 "[]"] by simp
  show ?thesis
    by (simp add: parseMessage_def p d Let_def)
       (simp add: index_def slice_of_def slice_from_def nth_append e)
qed

end
